theory Spec2Isabelle
  imports Complex_Main "HOL-Library.Word" "HOL-Library.Log_Nat"
begin

unbundle bit_operations_syntax

section \<open>The latency recorder of \<^verbatim>\<open>src/latency.cpp\<close>\<close>

subsection \<open>Constants\<close>

definition LATENCY_MAX_DIST :: nat where
  "LATENCY_MAX_DIST = 127"

definition LATENCY_DIST_POOL_SIZE :: nat where
  "LATENCY_DIST_POOL_SIZE = 5"

definition LATENCY_HISTOGRAM_WIDTH :: nat where
  "LATENCY_HISTOGRAM_WIDTH = 50"

definition LATENCY_NUM_BUCKETS :: nat where
  "LATENCY_NUM_BUCKETS = 65"

definition MAX_ITERATIONS :: nat where
  "MAX_ITERATIONS = 1000000"

subsection \<open>Data\<close>

text \<open>
  \<^verbatim>\<open>Latency_Dist_t\<close>: four \<^verbatim>\<open>uint64_t\<close> statistics, 65 \<^verbatim>\<open>uint32_t\<close> buckets and the
  tag. The field \<^verbatim>\<open>type\<close> is called \<open>dtype\<close> here, \<^verbatim>\<open>min\<close> and \<^verbatim>\<open>max\<close> are \<open>dmin\<close> and
  \<open>dmax\<close>, \<^verbatim>\<open>total\<close> and \<^verbatim>\<open>count\<close> are \<open>dtotal\<close> and \<open>dcount\<close>.
\<close>

record Latency_Dist_t =
  dmin :: "64 word"
  dmax :: "64 word"
  dtotal :: "64 word"
  dcount :: "64 word"
  buckets :: "32 word list"
  dtype :: char

text \<open>
  \<^verbatim>\<open>dmtr_latency_t\<close>. A pointer of \<^verbatim>\<open>dists\<close> is either null or the address of a slot of
  \<^verbatim>\<open>distPool\<close>, so it is an optional index into the pool.
\<close>

record dmtr_latency =
  name :: string
  dists :: "nat option list"
  distPool :: "Latency_Dist_t list"
  distPoolNext :: nat
  latencies :: "64 word list"

text \<open>
  The ways a call does not return normally: \<^verbatim>\<open>abort()\<close>, a failed \<^verbatim>\<open>assert\<close>, a null
  pointer that is dereferenced, an index outside its array (the exception of
  \<^verbatim>\<open>vector::at\<close>, or undefined behaviour on a plain array), a shift by the width of the
  type or more, and a division by zero.
\<close>

datatype error = Abort | AssertFail | NullDeref | OutOfRange | UndefinedShift | DivByZero

text \<open>The array index \<^verbatim>\<open>(int)type\<close> of a tag.\<close>

definition tag_index :: "char \<Rightarrow> nat" where
  "tag_index c = of_char c"

subsection \<open>Recording\<close>

text \<open>\<^verbatim>\<open>LatencyAddStat\<close>: the raw sample is kept while the buffer is below its cap.\<close>

definition LatencyAddStat :: "dmtr_latency \<Rightarrow> char \<Rightarrow> 64 word \<Rightarrow> dmtr_latency" where
  "LatencyAddStat l ty val =
     (if length (latencies l) < MAX_ITERATIONS
      then l\<lparr>latencies := latencies l @ [val]\<rparr> else l)"

text \<open>
  The bucket loop of \<^verbatim>\<open>LatencyAddHist\<close>:
  \<^verbatim>\<open>while (val) { val >>= 1; ++bucket; }\<close>, entered after a first \<^verbatim>\<open>val >>= 1\<close> with
  \<^verbatim>\<open>bucket = 0\<close>.
\<close>

function bucket_loop :: "64 word \<Rightarrow> nat \<Rightarrow> nat" where
  "bucket_loop val bucket =
     (if val \<noteq> 0 then bucket_loop (drop_bit 1 val) (bucket + 1) else bucket)"
  by pat_completeness auto
termination
proof (relation "measure (\<lambda>(val, bucket). unat val)")
  show "wf (measure (\<lambda>(val :: 64 word, bucket :: nat). unat val))"
    by simp
next
  fix val :: "64 word" and bucket :: nat
  assume "val \<noteq> 0"
  then have "unat val \<noteq> 0"
    by (simp add: unat_eq_0)
  then have "unat val div 2 < unat val"
    by simp
  then show "((drop_bit 1 val, bucket + 1), (val, bucket))
      \<in> measure (\<lambda>(val, bucket). unat val)"
    by (simp add: unat_drop_bit_eq drop_bit_eq_div unat_div)
qed

declare bucket_loop.simps [simp del]

definition bucket_of :: "64 word \<Rightarrow> nat" where
  "bucket_of val = bucket_loop (drop_bit 1 val) 0"

text \<open>
  The first half of \<^verbatim>\<open>LatencyAddHist\<close>: the distribution of the tag is looked up, and
  taken from the pool when the tag is new. The pool being used up is \<^verbatim>\<open>abort()\<close>.
  A tag whose index is outside \<^verbatim>\<open>dists\<close> is written out as an error.
\<close>

definition dist_lookup :: "dmtr_latency \<Rightarrow> char \<Rightarrow> error + dmtr_latency" where
  "dist_lookup l ty =
     (if \<not> tag_index ty < LATENCY_MAX_DIST then Inl OutOfRange
      else if dists l ! tag_index ty = None then
        (if distPoolNext l = LATENCY_DIST_POOL_SIZE then Inl Abort
         else Inr (l\<lparr>dists := (dists l)[tag_index ty := Some (distPoolNext l)],
                     distPool := (distPool l)[distPoolNext l :=
                        (distPool l ! distPoolNext l)\<lparr>dtype := ty\<rparr>],
                     distPoolNext := distPoolNext l + 1\<rparr>))
      else Inr l)"

text \<open>
  \<^verbatim>\<open>LatencyAddHist\<close>: the bucket of \<open>val\<close> grows by \<open>count\<close> (a \<^verbatim>\<open>uint32_t\<close> addition).
  The result is the recorder and the pool index of the distribution, the pointer that
  the C function returns.
\<close>

definition LatencyAddHist ::
  "dmtr_latency \<Rightarrow> char \<Rightarrow> 64 word \<Rightarrow> 32 word \<Rightarrow> error + (dmtr_latency \<times> nat)" where
  "LatencyAddHist l ty val count =
     (case dist_lookup l ty of
        Inl e \<Rightarrow> Inl e
      | Inr l1 \<Rightarrow>
          (case dists l1 ! tag_index ty of
             None \<Rightarrow> Inl NullDeref
           | Some d \<Rightarrow>
               let bucket = bucket_of val in
               if \<not> bucket < LATENCY_NUM_BUCKETS then Inl AssertFail
               else
                 let dist = distPool l1 ! d;
                     dist' = dist\<lparr>buckets := (buckets dist)[bucket := buckets dist ! bucket + count]\<rparr>
                 in Inr (l1\<lparr>distPool := (distPool l1)[d := dist']\<rparr>, d)))"

text \<open>\<^verbatim>\<open>LatencyAdd\<close>: one sample of weight 1, then the exact statistics.\<close>

definition add_sample :: "64 word \<Rightarrow> Latency_Dist_t \<Rightarrow> Latency_Dist_t" where
  "add_sample val d =
     (let d1 = (if val < dmin d then d\<lparr>dmin := val\<rparr> else d);
          d2 = (if val > dmax d1 then d1\<lparr>dmax := val\<rparr> else d1)
      in d2\<lparr>dtotal := dtotal d2 + val, dcount := dcount d2 + 1\<rparr>)"

definition LatencyAdd :: "dmtr_latency \<Rightarrow> char \<Rightarrow> 64 word \<Rightarrow> error + dmtr_latency" where
  "LatencyAdd l ty val =
     (case LatencyAddHist l ty val 1 of
        Inl e \<Rightarrow> Inl e
      | Inr (l1, d) \<Rightarrow>
          let l2 = LatencyAddStat l1 ty val
          in Inr (l2\<lparr>distPool := (distPool l2)[d := add_sample val (distPool l2 ! d)]\<rparr>))"

subsection \<open>Merging\<close>

text \<open>
  \<^verbatim>\<open>Latency_Sum\<close>, first loop, inner part: every non-empty bucket \<open>b\<close> of a distribution
  \<open>d\<close> of the summand is added to \<open>dest\<close> as the value \<^verbatim>\<open>1ll << b\<close> with the bucket's count
  as weight. A shift by 64 is undefined, and is written out as an error.
\<close>

fun sum_hist_buckets :: "dmtr_latency \<Rightarrow> Latency_Dist_t \<Rightarrow> nat list \<Rightarrow> error + dmtr_latency" where
  "sum_hist_buckets dest d [] = Inr dest"
| "sum_hist_buckets dest d (b # bs) =
     (if buckets d ! b = 0 then sum_hist_buckets dest d bs
      else if \<not> b < 64 then Inl UndefinedShift
      else (case LatencyAddHist dest (dtype d) (push_bit b 1) (buckets d ! b) of
              Inl e \<Rightarrow> Inl e
            | Inr (dest', r) \<Rightarrow> sum_hist_buckets dest' d bs))"

text \<open>The first loop, over the used slots of the summand's pool.\<close>

fun sum_hist :: "dmtr_latency \<Rightarrow> dmtr_latency \<Rightarrow> nat list \<Rightarrow> error + dmtr_latency" where
  "sum_hist dest summand [] = Inr dest"
| "sum_hist dest summand (i # is) =
     (case sum_hist_buckets dest (distPool summand ! i) [0..<LATENCY_NUM_BUCKETS] of
        Inl e \<Rightarrow> Inl e
      | Inr dest' \<Rightarrow> sum_hist dest' summand is)"

text \<open>The body of the second loop: the statistics of \<open>ds\<close> are folded into \<open>dd\<close>.\<close>

definition merge_stats :: "Latency_Dist_t \<Rightarrow> Latency_Dist_t \<Rightarrow> Latency_Dist_t" where
  "merge_stats ds dd =
     (let dd1 = (if dmin ds < dmin dd then dd\<lparr>dmin := dmin ds\<rparr> else dd);
          dd2 = (if dmax ds > dmax dd1 then dd1\<lparr>dmax := dmax ds\<rparr> else dd1)
      in dd2\<lparr>dtotal := dtotal dd2 + dtotal ds, dcount := dcount dd2 + dcount ds\<rparr>)"

text \<open>
  The second loop, over all tags. Where the summand has a distribution, the pointer
  \<^verbatim>\<open>dd\<close> of \<open>dest\<close> is dereferenced without a test.
\<close>

fun sum_stats :: "dmtr_latency \<Rightarrow> dmtr_latency \<Rightarrow> nat list \<Rightarrow> error + dmtr_latency" where
  "sum_stats dest summand [] = Inr dest"
| "sum_stats dest summand (i # is) =
     (case dists summand ! i of
        None \<Rightarrow> sum_stats dest summand is
      | Some s \<Rightarrow>
          (case dists dest ! i of
             None \<Rightarrow> Inl NullDeref
           | Some d \<Rightarrow>
               sum_stats
                 (dest\<lparr>distPool := (distPool dest)[d :=
                    merge_stats (distPool summand ! s) (distPool dest ! d)]\<rparr>)
                 summand is))"

text \<open>
  \<^verbatim>\<open>Latency_Sum\<close>. The summand is only read, and the model passes it by value. A call
  with the same recorder in both places, on a recorder built by \<^verbatim>\<open>dmtr_new_latency\<close>,
  \<^verbatim>\<open>dmtr_record_latency\<close> and \<^verbatim>\<open>Latency_Sum\<close>, has the effect of merging a copy of it: the
  first loop reads a bucket before it adds to this same bucket and creates no slot, and
  the second loop reads \<^verbatim>\<open>total\<close> and \<^verbatim>\<open>count\<close> before it adds them.
\<close>

definition Latency_Sum :: "dmtr_latency \<Rightarrow> dmtr_latency \<Rightarrow> error + dmtr_latency" where
  "Latency_Sum dest summand =
     (case sum_hist dest summand [0..<distPoolNext summand] of
        Inl e \<Rightarrow> Inl e
      | Inr dest1 \<Rightarrow> sum_stats dest1 summand [0..<LATENCY_MAX_DIST])"

subsection \<open>Creating a recorder, recording through the public entry point\<close>

text \<open>
  \<^verbatim>\<open>new dmtr_latency_t()\<close> zero-initialises the object; the loop of
  \<^verbatim>\<open>dmtr_new_latency\<close> then sets \<^verbatim>\<open>min\<close> of every pool slot to \<^verbatim>\<open>~0ll\<close>.
\<close>

definition zero_dist :: Latency_Dist_t where
  "zero_dist = \<lparr>dmin = 0, dmax = 0, dtotal = 0, dcount = 0,
                 buckets = replicate LATENCY_NUM_BUCKETS 0, dtype = char_of (0 :: nat)\<rparr>"

definition dmtr_new_latency :: "string \<Rightarrow> dmtr_latency" where
  "dmtr_new_latency nm =
     \<lparr>name = nm,
      dists = replicate LATENCY_MAX_DIST None,
      distPool = replicate LATENCY_DIST_POOL_SIZE (zero_dist\<lparr>dmin := NOT 0\<rparr>),
      distPoolNext = 0,
      latencies = []\<rparr>"

text \<open>\<^verbatim>\<open>dmtr_record_latency\<close> returns the status 0 and the recorder.\<close>

definition dmtr_record_latency :: "dmtr_latency \<Rightarrow> 64 word \<Rightarrow> error + (int \<times> dmtr_latency)" where
  "dmtr_record_latency latency ns =
     (if ns \<noteq> 0
      then (case LatencyAdd latency (CHR ''='') ns of
              Inl e \<Rightarrow> Inl e
            | Inr l \<Rightarrow> Inr (0, l))
      else Inr (0, latency))"

text \<open>
  The recorders that a program can build: created by \<^verbatim>\<open>dmtr_new_latency\<close>, then changed
  by \<^verbatim>\<open>dmtr_record_latency\<close> and by \<^verbatim>\<open>Latency_Sum\<close> with another such recorder, as long as
  the calls return.
\<close>

inductive reachable :: "dmtr_latency \<Rightarrow> bool" where
  reach_create: "reachable (dmtr_new_latency nm)"
| reach_record: "reachable l \<Longrightarrow> dmtr_record_latency l ns = Inr (r, l') \<Longrightarrow> reachable l'"
| reach_merge: "reachable dest \<Longrightarrow> reachable summand \<Longrightarrow> Latency_Sum dest summand = Inr dest'
          \<Longrightarrow> reachable dest'"

text \<open>A list of samples recorded one after the other.\<close>

fun record_all :: "dmtr_latency \<Rightarrow> 64 word list \<Rightarrow> error + dmtr_latency" where
  "record_all l [] = Inr l"
| "record_all l (ns # nss) =
     (case dmtr_record_latency l ns of
        Inl e \<Rightarrow> Inl e
      | Inr (r, l') \<Rightarrow> record_all l' nss)"

subsection \<open>Formatting\<close>

text \<open>The conversions \<^verbatim>\<open>%lu\<close> and \<^verbatim>\<open>%ld\<close> of \<^verbatim>\<open>printf\<close>: decimal digits, most significant first.\<close>

definition digit_char :: "nat \<Rightarrow> char" where
  "digit_char d = ''0123456789'' ! d"

fun show_nat :: "nat \<Rightarrow> string" where
  "show_nat n =
     (if n < 10 then [digit_char n]
      else show_nat (n div 10) @ [digit_char (n mod 10)])"

declare show_nat.simps [simp del]

definition show_int :: "int \<Rightarrow> string" where
  "show_int i = (if i < 0 then CHR ''-'' # show_nat (nat (- i)) else show_nat (nat i))"

text \<open>The conversion \<^verbatim>\<open>%10s\<close> (and the width of \<^verbatim>\<open>%10ld\<close>): blanks on the left up to the width.\<close>

definition pad_left :: "nat \<Rightarrow> string \<Rightarrow> string" where
  "pad_left w s = replicate (w - length s) CHR '' '' @ s"

text \<open>
  \<^verbatim>\<open>LatencyFmtNS\<close>: the loop divides by 1000 while the value is at least 10000 and a
  larger unit is left.
\<close>

definition units :: "string list" where
  "units = [''ns'', ''us'', ''ms'', ''s'']"

function fmt_loop :: "64 word \<Rightarrow> nat \<Rightarrow> 64 word \<times> nat" where
  "fmt_loop ns unit =
     (if ns \<ge> 10000 \<and> unit < length units - 1 then fmt_loop (ns div 1000) (unit + 1)
      else (ns, unit))"
  by pat_completeness auto
termination
  by (relation "measure (\<lambda>(ns, unit). length units - 1 - unit)") auto

declare fmt_loop.simps [simp del]

definition LatencyFmtNS :: "64 word \<Rightarrow> string" where
  "LatencyFmtNS ns =
     (case fmt_loop ns 0 of (ns', unit) \<Rightarrow> show_nat (unat ns') @ '' '' @ units ! unit)"

subsection \<open>The tail-latency indices\<close>

text \<open>
  The index \<^verbatim>\<open>(int)((float)l->latencies.size() * 0.99)\<close> is computed in binary floating
  point: the size is converted to \<^verbatim>\<open>float\<close> (24 significant bits), promoted to \<^verbatim>\<open>double\<close>
  and multiplied by the \<^verbatim>\<open>double\<close> nearest to the decimal literal (53 significant bits);
  the product is rounded to 53 significant bits and truncated to \<^verbatim>\<open>int\<close>. All values are
  non-negative and in the normal range, so the model works on natural numbers and on the
  scale \<open>2 ^ 53\<close>. Rounding is to nearest, ties to even.
\<close>

fun bit_length :: "nat \<Rightarrow> nat" where
  "bit_length n = (if n = 0 then 0 else Suc (bit_length (n div 2)))"

declare bit_length.simps [simp del]

definition round_nearest_even :: "nat \<Rightarrow> nat \<Rightarrow> nat" where
  "round_nearest_even p x =
     (if x < 2 ^ p then x
      else
        let sh = bit_length x - p;
            q = x div 2 ^ sh;
            r = x mod 2 ^ sh;
            h = 2 ^ (sh - 1)
        in (if r > h \<or> (r = h \<and> odd q) then q + 1 else q) * 2 ^ sh)"

text \<open>
  The 53-bit significand of the \<^verbatim>\<open>double\<close> nearest to \<open>num / den\<close>, for a literal between
  one half and one: the value of the literal is this number divided by \<open>2 ^ 53\<close>.
\<close>

definition double_literal :: "nat \<Rightarrow> nat \<Rightarrow> nat" where
  "double_literal num den =
     (let q = (num * 2 ^ 53) div den;
          r = (num * 2 ^ 53) mod den
      in if 2 * r > den \<or> (2 * r = den \<and> odd q) then q + 1 else q)"

definition tail_index :: "nat \<Rightarrow> nat \<Rightarrow> nat \<Rightarrow> nat" where
  "tail_index n num den =
     round_nearest_even 53 (round_nearest_even 24 n * double_literal num den) div 2 ^ 53"

text \<open>\<^verbatim>\<open>vector::at\<close> throws outside the vector.\<close>

definition vector_at :: "64 word list \<Rightarrow> nat \<Rightarrow> error + 64 word" where
  "vector_at xs i = (if i < length xs then Inr (xs ! i) else Inl OutOfRange)"

definition tail_line :: "64 word list \<Rightarrow> error + string" where
  "tail_line xs =
     (case vector_at xs (tail_index (length xs) 99 100) of
        Inl e \<Rightarrow> Inl e
      | Inr p99 \<Rightarrow>
     (case vector_at xs (tail_index (length xs) 999 1000) of
        Inl e \<Rightarrow> Inl e
      | Inr p999 \<Rightarrow>
     (case vector_at xs (tail_index (length xs) 9999 10000) of
        Inl e \<Rightarrow> Inl e
      | Inr p9999 \<Rightarrow>
          Inr (''TAIL LATENCY 99='' @ LatencyFmtNS p99 @ '' 99.9='' @ LatencyFmtNS p999
               @ '' 99.99='' @ LatencyFmtNS p9999))))"

subsection \<open>The report\<close>

text \<open>
  The median loop of \<^verbatim>\<open>Latency_Dump\<close>: the first bucket at which the running sum of
  the bucket counts reaches half the count; 65 when the loop runs to its end.
\<close>

fun median_loop :: "32 word list \<Rightarrow> 64 word \<Rightarrow> 64 word \<Rightarrow> nat list \<Rightarrow> nat" where
  "median_loop bs cnt accum [] = LATENCY_NUM_BUCKETS"
| "median_loop bs cnt accum (m # ms) =
     (let accum' = accum + ucast (bs ! m)
      in if accum' \<ge> cnt div 2 then m else median_loop bs cnt accum' ms)"

text \<open>
  The summary line of one distribution. The arguments of \<^verbatim>\<open>fprintf\<close> divide by the
  count and shift 1 by the median bucket.
\<close>

definition summary_line :: "string \<Rightarrow> nat \<Rightarrow> Latency_Dist_t \<Rightarrow> error + string" where
  "summary_line nm ty d =
     (let medianBucket = median_loop (buckets d) (dcount d) 0 [0..<LATENCY_NUM_BUCKETS];
          extra = (if ty = tag_index (CHR ''='') then [] else [CHR ''/'', char_of ty])
      in if dcount d = 0 then Inl DivByZero
         else if \<not> medianBucket < 64 then Inl UndefinedShift
         else Inr (''LATENCY '' @ nm @ extra @ '': '' @ LatencyFmtNS (dmin d) @ '' ''
                   @ LatencyFmtNS (dtotal d div dcount d) @ ''/''
                   @ LatencyFmtNS (push_bit medianBucket 1) @ '' ''
                   @ LatencyFmtNS (dmax d) @ '' ('' @ show_nat (unat (dcount d))
                   @ '' samples, '' @ LatencyFmtNS (dtotal d) @ '' total)''))"

text \<open>
  The first loop of \<^verbatim>\<open>Latency_Dump\<close>, over all tags: the tags in use are chained in
  ascending order (\<^verbatim>\<open>firstType\<close>, \<^verbatim>\<open>nextTypes\<close>), and each prints its summary line. The
  result is the chain and the lines.
\<close>

fun summary_loop :: "dmtr_latency \<Rightarrow> nat list \<Rightarrow> error + (nat list \<times> string list)" where
  "summary_loop l [] = Inr ([], [])"
| "summary_loop l (ty # tys) =
     (case dists l ! ty of
        None \<Rightarrow> summary_loop l tys
      | Some d \<Rightarrow>
          (case summary_line (name l) ty (distPool l ! d) of
             Inl e \<Rightarrow> Inl e
           | Inr line \<Rightarrow>
               (case summary_loop l tys of
                  Inl e \<Rightarrow> Inl e
                | Inr (chain, lines) \<Rightarrow> Inr (ty # chain, line # lines))))"

text \<open>The total of bucket \<open>i\<close> over the used pool slots, and the largest such total.\<close>

fun pool_total :: "Latency_Dist_t list \<Rightarrow> nat \<Rightarrow> 64 word \<Rightarrow> 64 word" where
  "pool_total [] i tot = tot"
| "pool_total (d # ds) i tot = pool_total ds i (tot + ucast (buckets d ! i))"

fun largest_loop :: "dmtr_latency \<Rightarrow> nat list \<Rightarrow> 64 word \<Rightarrow> 64 word" where
  "largest_loop l [] largestCount = largestCount"
| "largest_loop l (i # is) largestCount =
     (let tot = pool_total (take (distPoolNext l) (distPool l)) i 0
      in largest_loop l is (if tot > largestCount then tot else largestCount))"

text \<open>
  The stacked bar of bucket \<open>i\<close>: along the chain of tags the running total grows and
  the bar is filled with the tag's character up to \<^verbatim>\<open>goal\<close>. The position \<^verbatim>\<open>pos\<close> is the
  length of the bar.
\<close>

fun bar_loop ::
  "dmtr_latency \<Rightarrow> nat \<Rightarrow> 64 word \<Rightarrow> nat list \<Rightarrow> 64 word \<Rightarrow> string \<Rightarrow> 64 word \<times> string" where
  "bar_loop l i largestCount [] tot bar = (tot, bar)"
| "bar_loop l i largestCount (ty # tys) tot bar =
     (case dists l ! ty of
        None \<Rightarrow> bar_loop l i largestCount tys tot bar
      | Some d \<Rightarrow>
          let tot' = tot + ucast (buckets (distPool l ! d) ! i);
              goal = unat ((tot' * of_nat LATENCY_HISTOGRAM_WIDTH) div largestCount)
          in bar_loop l i largestCount tys tot'
               (bar @ replicate (goal - length bar) (char_of ty)))"

text \<open>The three kinds of rows of the histogram.\<close>

definition dots_row :: string where
  "dots_row = pad_left 10 ''...'' @ '' |''"

definition zero_row :: "nat \<Rightarrow> string" where
  "zero_row k = pad_left 10 (LatencyFmtNS (push_bit k 1)) @ '' | '' @ pad_left 10 (show_int 0) @ '' |''"

definition bucket_row :: "nat \<Rightarrow> 64 word \<Rightarrow> string \<Rightarrow> string" where
  "bucket_row i tot bar =
     pad_left 10 (LatencyFmtNS (push_bit i 1)) @ '' | '' @ pad_left 10 (show_int (sint tot))
     @ '' | '' @ bar"

text \<open>
  What is printed before the row of a non-empty bucket \<open>i\<close>, when the last printed
  bucket is \<open>lastPrinted\<close>: the test is \<^verbatim>\<open>lastPrinted < i - 3\<close> on \<^verbatim>\<open>int\<close>.
\<close>

definition gap_rows :: "nat \<Rightarrow> nat \<Rightarrow> string list" where
  "gap_rows lastPrinted i =
     (if int lastPrinted < int i - 3 then [dots_row]
      else map zero_row [lastPrinted + 1..<i])"

text \<open>The display loop over the buckets.\<close>

fun hist_loop ::
  "dmtr_latency \<Rightarrow> 64 word \<Rightarrow> nat list \<Rightarrow> nat list \<Rightarrow> nat \<Rightarrow> error + string list" where
  "hist_loop l largestCount chain [] lastPrinted = Inr []"
| "hist_loop l largestCount chain (i # is) lastPrinted =
     (case bar_loop l i largestCount chain 0 [] of
        (tot, bar) \<Rightarrow>
          if tot > 0 then
            (if \<not> i < 64 then Inl UndefinedShift
             else (case hist_loop l largestCount chain is i of
                     Inl e \<Rightarrow> Inl e
                   | Inr rest \<Rightarrow> Inr (gap_rows lastPrinted i @ bucket_row i tot bar # rest)))
          else hist_loop l largestCount chain is lastPrinted)"

text \<open>
  \<^verbatim>\<open>Latency_Dump\<close>: the status, the lines written to the file, and the recorder, whose
  sample buffer is sorted by the call.
\<close>

definition Latency_Dump :: "dmtr_latency \<Rightarrow> error + (int \<times> string list \<times> dmtr_latency)" where
  "Latency_Dump l =
     (if distPoolNext l = 0 then Inr (0, [], l)
      else
        (case summary_loop l [0..<LATENCY_MAX_DIST] of
           Inl e \<Rightarrow> Inl e
         | Inr (chain, summary) \<Rightarrow>
             let l' = l\<lparr>latencies := sort (latencies l)\<rparr>
             in (case tail_line (latencies l') of
                   Inl e \<Rightarrow> Inl e
                 | Inr tail \<Rightarrow>
                     let largestCount = largest_loop l' [0..<LATENCY_NUM_BUCKETS]
                                          (of_nat LATENCY_HISTOGRAM_WIDTH)
                     in (case hist_loop l' largestCount chain [0..<LATENCY_NUM_BUCKETS]
                                LATENCY_NUM_BUCKETS of
                           Inl e \<Rightarrow> Inl e
                         | Inr rows \<Rightarrow> Inr (0, summary @ tail # rows, l')))))"

subsection \<open>Recorders with the one tag of the public entry point\<close>

text \<open>
  \<^verbatim>\<open>dmtr_record_latency\<close> records under the tag \<^verbatim>\<open>'='\<close> only. A recorder that holds this
  one tag has its distribution in slot 0 of the pool; the other slots are as
  \<^verbatim>\<open>dmtr_new_latency\<close> left them.
\<close>

definition live :: "string \<Rightarrow> Latency_Dist_t \<Rightarrow> 64 word list \<Rightarrow> dmtr_latency" where
  "live nm d lat =
     \<lparr>name = nm,
      dists = (replicate LATENCY_MAX_DIST None)[tag_index (CHR ''='') := Some 0],
      distPool = d # replicate 4 (zero_dist\<lparr>dmin := NOT 0\<rparr>),
      distPoolNext = 1,
      latencies = lat\<rparr>"

text \<open>The pool slot that the tag \<^verbatim>\<open>'='\<close> has just taken.\<close>

definition fresh_dist :: Latency_Dist_t where
  "fresh_dist = zero_dist\<lparr>dmin := NOT 0, dtype := CHR ''=''\<rparr>"

text \<open>The effect of \<^verbatim>\<open>d->buckets[bucket] += count\<close>, once and along a list of buckets.\<close>

definition add_weight :: "nat \<Rightarrow> 32 word \<Rightarrow> Latency_Dist_t \<Rightarrow> Latency_Dist_t" where
  "add_weight b c d = d\<lparr>buckets := (buckets d)[b := buckets d ! b + c]\<rparr>"

fun add_buckets :: "Latency_Dist_t \<Rightarrow> 32 word list \<Rightarrow> nat list \<Rightarrow> Latency_Dist_t" where
  "add_buckets d ys [] = d"
| "add_buckets d ys (b # bs) = add_buckets (add_weight b (ys ! b) d) ys bs"

text \<open>The effect of \<^verbatim>\<open>LatencyAddStat\<close> on the sample buffer.\<close>

definition push_sample :: "64 word \<Rightarrow> 64 word list \<Rightarrow> 64 word list" where
  "push_sample v lat = (if length lat < MAX_ITERATIONS then lat @ [v] else lat)"

subsection \<open>Invariants and a run that overflows a bucket\<close>

text \<open>
  What holds of the distribution of a reachable recorder: it has the tag \<^verbatim>\<open>'='\<close>, 65
  buckets of which the last is empty, and the count agrees with the sum of the buckets
  in 32-bit arithmetic.
\<close>

definition good_dist :: "Latency_Dist_t \<Rightarrow> bool" where
  "good_dist d \<longleftrightarrow>
     dtype d = CHR ''='' \<and> length (buckets d) = LATENCY_NUM_BUCKETS \<and> buckets d ! 64 = 0
     \<and> ucast (dcount d) = sum_list (buckets d)"

text \<open>A reachable recorder is new, or holds the one tag and at most the cap of samples.\<close>

definition shape :: "dmtr_latency \<Rightarrow> bool" where
  "shape l \<longleftrightarrow>
     (\<exists>nm. l = dmtr_new_latency nm)
     \<or> (\<exists>nm d lat. l = live nm d lat \<and> good_dist d \<and> length lat \<le> MAX_ITERATIONS)"

text \<open>
  Doubling a recorder with two calls of \<^verbatim>\<open>Latency_Sum\<close>: the recorder is merged into a new
  one, and this copy is merged back into the recorder.
\<close>

fun double_up :: "nat \<Rightarrow> dmtr_latency \<Rightarrow> error + dmtr_latency" where
  "double_up 0 l = Inr l"
| "double_up (Suc k) l =
     (case Latency_Sum (dmtr_new_latency ''copy'') l of
        Inl e \<Rightarrow> Inl e
      | Inr c \<Rightarrow>
          (case Latency_Sum l c of
             Inl e \<Rightarrow> Inl e
           | Inr l' \<Rightarrow> double_up k l'))"

text \<open>The distribution of \<open>2 ^ k\<close> samples of 1 ns, as the code holds it.\<close>

definition pow2_dist :: "nat \<Rightarrow> Latency_Dist_t" where
  "pow2_dist k =
     \<lparr>dmin = 1, dmax = 1, dtotal = 2 ^ k, dcount = 2 ^ k,
      buckets = (replicate LATENCY_NUM_BUCKETS 0)[0 := 2 ^ k], dtype = CHR ''=''\<rparr>"

subsection \<open>Auxiliary notions for the pool and the merge\<close>

text \<open>\<^verbatim>\<open>LatencyAdd\<close> of the value 1 under each tag of a list.\<close>

fun add_tags :: "dmtr_latency \<Rightarrow> string \<Rightarrow> error + dmtr_latency" where
  "add_tags l [] = Inr l"
| "add_tags l (ty # tys) =
     (case LatencyAdd l ty 1 of Inl e \<Rightarrow> Inl e | Inr l' \<Rightarrow> add_tags l' tys)"

text \<open>The tags that have a distribution in \<open>l\<close> have one in \<open>l'\<close>.\<close>

definition covers :: "dmtr_latency \<Rightarrow> dmtr_latency \<Rightarrow> bool" where
  "covers l l' \<longleftrightarrow>
     length (dists l') = length (dists l) \<and> (\<forall>t. dists l ! t \<noteq> None \<longrightarrow> dists l' ! t \<noteq> None)"

subsection \<open>Notions for the report\<close>

text \<open>The total and the bar that the display loop computes for bucket \<open>i\<close>.\<close>

definition bucket_total :: "dmtr_latency \<Rightarrow> 64 word \<Rightarrow> nat list \<Rightarrow> nat \<Rightarrow> 64 word" where
  "bucket_total l largestCount chain i = fst (bar_loop l i largestCount chain 0 [])"

definition bucket_bar :: "dmtr_latency \<Rightarrow> 64 word \<Rightarrow> nat list \<Rightarrow> nat \<Rightarrow> string" where
  "bucket_bar l largestCount chain i = snd (bar_loop l i largestCount chain 0 [])"

text \<open>
  The distributions that hold the samples 1, 2, 4, 1000, 1000000, the samples 1, 16 and
  the samples 1024, 8192.
\<close>

definition five_dist :: Latency_Dist_t where
  "five_dist =
     \<lparr>dmin = 1, dmax = 1000000, dtotal = 1001007, dcount = 5,
      buckets = (replicate LATENCY_NUM_BUCKETS 0)[0 := 1, 1 := 1, 2 := 1, 9 := 1, 19 := 1],
      dtype = CHR ''=''\<rparr>"

definition two_dist :: Latency_Dist_t where
  "two_dist =
     \<lparr>dmin = 1, dmax = 16, dtotal = 17, dcount = 2,
      buckets = (replicate LATENCY_NUM_BUCKETS 0)[0 := 1, 4 := 1],
      dtype = CHR ''=''\<rparr>"

definition gap_dist :: Latency_Dist_t where
  "gap_dist =
     \<lparr>dmin = 1024, dmax = 8192, dtotal = 9216, dcount = 2,
      buckets = (replicate LATENCY_NUM_BUCKETS 0)[10 := 1, 13 := 1],
      dtype = CHR ''=''\<rparr>"


subsection \<open>Two samples whose sum exceeds 64 bits\<close>

text \<open>
  The distribution that holds one sample \<open>v\<close> of bucket 63, and the distribution that
  \<^verbatim>\<open>Latency_Sum\<close> leaves for the samples \<open>2 ^ 63\<close> and \<open>2 ^ 63 + 1\<close>: the total is
  \<open>2 ^ 64 + 1\<close> in \<^verbatim>\<open>uint64_t\<close>, which is 1.
\<close>

definition high_dist :: "64 word \<Rightarrow> Latency_Dist_t" where
  "high_dist v =
     \<lparr>dmin = v, dmax = v, dtotal = v, dcount = 1,
      buckets = (replicate LATENCY_NUM_BUCKETS 0)[63 := 1], dtype = CHR ''=''\<rparr>"

definition wrapped_dist :: Latency_Dist_t where
  "wrapped_dist =
     \<lparr>dmin = 9223372036854775808, dmax = 9223372036854775809, dtotal = 1, dcount = 2,
      buckets = (replicate LATENCY_NUM_BUCKETS 0)[63 := 2], dtype = CHR ''=''\<rparr>"

section \<open>Properties\<close>

subsection \<open>Bucketing\<close>

lemma unat_half: "unat (drop_bit 1 (val :: 64 word)) = unat val div 2"
  by (simp add: unat_drop_bit_eq drop_bit_eq_div unat_div)

lemma half_zero_iff: "drop_bit 1 (val :: 64 word) = 0 \<longleftrightarrow> unat val div 2 = 0"
  using unat_half [of val] by (metis unat_eq_0)

lemma bucket_loop_zero: "bucket_loop 0 k = k"
  by (simp add: bucket_loop.simps)

lemma bucket_loop_pos:
  "val \<noteq> 0 \<Longrightarrow> bucket_loop val k = bucket_loop (drop_bit 1 val) (Suc k)"
  by (subst bucket_loop.simps) simp

text \<open>The loop counts the bits of its argument: it adds the position after the highest set bit.\<close>

lemma bucket_loop_bounds:
  "val \<noteq> 0 \<Longrightarrow> \<exists>n. bucket_loop val k = k + Suc n \<and> 2 ^ n \<le> unat val \<and> unat val < 2 ^ Suc n"
proof (induction val k rule: bucket_loop.induct)
  case (1 val bucket)
  show ?case
  proof (cases "drop_bit 1 val = 0")
    case True
    then have "unat val div 2 = 0"
      by (simp only: half_zero_iff)
    moreover have "unat val \<noteq> 0"
      using "1.prems" by (simp add: unat_eq_0)
    ultimately have "unat val = 1"
      by presburger
    moreover have "bucket_loop val bucket = Suc bucket"
      using "1.prems" True by (simp add: bucket_loop_pos bucket_loop_zero)
    ultimately show ?thesis
      by (intro exI [of _ 0]) simp
  next
    case False
    from "1.IH" [OF "1.prems" False]
    obtain n where n: "bucket_loop (drop_bit 1 val) (bucket + 1) = bucket + 1 + Suc n"
      "2 ^ n \<le> unat (drop_bit 1 val)" "unat (drop_bit 1 val) < 2 ^ Suc n"
      by blast
    have half: "unat (drop_bit 1 val) = unat val div 2"
      by (rule unat_half)
    have "bucket_loop val bucket = bucket + Suc (Suc n)"
      using "1.prems" n(1) by (simp add: bucket_loop_pos)
    moreover have "2 ^ Suc n \<le> unat val"
      using n(2) half by simp
    moreover have "unat val < 2 ^ Suc (Suc n)"
      using n(3) half by simp
    ultimately show ?thesis
      by blast
  qed
qed

lemma bucket_of_le_1: "unat val \<le> 1 \<Longrightarrow> bucket_of val = 0"
proof -
  assume "unat val \<le> 1"
  then have "unat val div 2 = 0"
    by simp
  then have "drop_bit 1 val = 0"
    by (simp only: half_zero_iff)
  then show ?thesis
    by (simp add: bucket_of_def bucket_loop_zero)
qed

lemma bucket_of_bounds:
  assumes "val \<noteq> 0"
  shows "2 ^ bucket_of val \<le> unat val \<and> unat val < 2 ^ Suc (bucket_of val)"
proof (cases "drop_bit 1 val = 0")
  case True
  then have "unat val div 2 = 0"
    by (simp only: half_zero_iff)
  moreover have "unat val \<noteq> 0"
    using assms by (simp add: unat_eq_0)
  ultimately have "unat val = 1"
    by presburger
  then show ?thesis
    by (simp add: bucket_of_le_1)
next
  case False
  from bucket_loop_bounds [OF False, of 0]
  obtain n where n: "bucket_of val = Suc n"
    "2 ^ n \<le> unat (drop_bit 1 val)" "unat (drop_bit 1 val) < 2 ^ Suc n"
    by (auto simp: bucket_of_def)
  have half: "unat (drop_bit 1 val) = unat val div 2"
    by (rule unat_half)
  have "2 ^ Suc n \<le> unat val"
    using n(2) half by simp
  moreover have "unat val < 2 ^ Suc (Suc n)"
    using n(3) half by simp
  ultimately show ?thesis
    using n(1) by simp
qed

lemma pow2_bracket_unique:
  fixes x :: nat
  assumes "2 ^ a \<le> x" "x < 2 ^ Suc a" "2 ^ b \<le> x" "x < 2 ^ Suc b"
  shows "a = b"
proof (rule ccontr)
  assume "a \<noteq> b"
  then consider "Suc a \<le> b" | "Suc b \<le> a"
    by linarith
  then show False
  proof cases
    case 1
    then have "(2::nat) ^ Suc a \<le> 2 ^ b"
      by (rule power_increasing) simp
    with assms show False by linarith
  next
    case 2
    then have "(2::nat) ^ Suc b \<le> 2 ^ a"
      by (rule power_increasing) simp
    with assms show False by linarith
  qed
qed

lemma bucket_of_eqI:
  "2 ^ b \<le> unat val \<Longrightarrow> unat val < 2 ^ Suc b \<Longrightarrow> bucket_of val = b"
proof -
  assume b: "2 ^ b \<le> unat val" "unat val < 2 ^ Suc b"
  then have "val \<noteq> 0"
    by (metis not_less power_eq_0_iff unat_0 le_zero_eq zero_neq_numeral)
  from bucket_of_bounds [OF this] b show ?thesis
    by (blast intro: pow2_bracket_unique)
qed

lemma bucket_of_lt_64: "bucket_of val < 64"
proof (cases "val = 0")
  case True
  then show ?thesis
    by (simp add: bucket_of_le_1)
next
  case False
  from bucket_of_bounds [OF False] have "(2::nat) ^ bucket_of val < 2 ^ 64"
    using unsigned_less [of val, where ?'a = nat] by simp
  then show ?thesis
    by (simp only: power_strict_increasing_iff one_less_numeral_iff semiring_norm)
qed

lemma floor_log2_bracket:
  fixes n b :: nat
  assumes "2 ^ b \<le> n" "n < 2 ^ Suc b"
  shows "\<lfloor>log 2 (real n)\<rfloor> = int b"
proof -
  have pos: "0 < n"
    using assms(1) by (metis not_gr_zero not_less power_eq_0_iff zero_neq_numeral le_zero_eq)
  have "1 \<le> real n"
    using pos by simp
  then have "0 \<le> log 2 (real n)"
    by simp
  then have nonneg: "0 \<le> \<lfloor>log 2 (real n)\<rfloor>"
    by simp
  from floorlog_bounds [of n 2] pos
  have fl: "2 ^ (floorlog 2 n - 1) \<le> n" "n < 2 ^ floorlog 2 n"
    by simp_all
  have "floorlog 2 n \<noteq> 0"
    using pos by (simp add: floorlog_eq_zero_iff)
  then obtain m where m: "floorlog 2 n = Suc m"
    by (cases "floorlog 2 n") simp_all
  with fl have "2 ^ m \<le> n" "n < 2 ^ Suc m"
    by simp_all
  with assms have "b = m"
    by (rule pow2_bracket_unique)
  moreover have "int (floorlog 2 n) = \<lfloor>log 2 (real n)\<rfloor> + 1"
    using pos nonneg by (simp add: floorlog_def)
  ultimately show ?thesis
    using m by simp
qed

lemma bucket_of_floor_log:
  assumes "val \<noteq> 0"
  shows "int (bucket_of val) = \<lfloor>log 2 (real (unat val))\<rfloor>"
  using bucket_of_bounds [OF assms] floor_log2_bracket [of "bucket_of val" "unat val"]
  by simp

text \<open>
  C1. The bucket index computed by \<^verbatim>\<open>LatencyAddHist\<close> for a 64-bit value \<open>v\<close> is
  \<open>floor (log2 v)\<close> when \<open>v \<ge> 1\<close> and 0 when \<open>v = 0\<close>, that is
  \<open>floor (log2 (max v 1))\<close>; it lies in the range 0 to 64 of the bucket array; and a
  value \<open>v \<ge> 1\<close> falls into bucket \<open>b\<close> exactly when it lies in the half-open range from
  \<open>2 ^ b\<close> to \<open>2 ^ (b + 1)\<close>.
\<close>

theorem bucket_of_is_floor_log2:
  "bucket_of 0 = 0
   \<and> (\<forall>v. v \<noteq> 0 \<longrightarrow> int (bucket_of v) = \<lfloor>log 2 (real (unat v))\<rfloor>)
   \<and> (\<forall>v. int (bucket_of v) = \<lfloor>log 2 (real (max (unat v) 1))\<rfloor>)
   \<and> (\<forall>v. bucket_of v \<le> 64)
   \<and> (\<forall>v b. v \<noteq> 0 \<longrightarrow> (bucket_of v = b \<longleftrightarrow> 2 ^ b \<le> unat v \<and> unat v < 2 ^ (b + 1)))"
proof (intro conjI allI impI)
  show "bucket_of 0 = 0"
    by (simp add: bucket_of_le_1)
next
  fix v :: "64 word"
  assume "v \<noteq> 0"
  then show "int (bucket_of v) = \<lfloor>log 2 (real (unat v))\<rfloor>"
    by (rule bucket_of_floor_log)
next
  fix v :: "64 word"
  show "int (bucket_of v) = \<lfloor>log 2 (real (max (unat v) 1))\<rfloor>"
  proof (cases "v = 0")
    case True
    then show ?thesis
      by (simp add: bucket_of_le_1)
  next
    case False
    then have "0 < unat v"
      by (simp add: unat_gt_0)
    then have "max (unat v) 1 = unat v"
      by (simp add: max_def)
    with False show ?thesis
      by (simp add: bucket_of_floor_log)
  qed
next
  fix v :: "64 word"
  show "bucket_of v \<le> 64"
    using bucket_of_lt_64 [of v] by simp
next
  fix v :: "64 word" and b :: nat
  assume "v \<noteq> 0"
  then show "bucket_of v = b \<longleftrightarrow> 2 ^ b \<le> unat v \<and> unat v < 2 ^ (b + 1)"
    using bucket_of_bounds [of v] bucket_of_eqI [of b v] by auto
qed

theorem bucket_of_is_floor_log2_witness:
  "bucket_of 1000 = 9 \<and> int (bucket_of 1000) = \<lfloor>log 2 (real (unat (1000 :: 64 word)))\<rfloor>"
proof -
  have "(1000 :: 64 word) \<noteq> 0"
    by simp
  moreover have "(2::nat) ^ 9 \<le> unat (1000 :: 64 word) \<and> unat (1000 :: 64 word) < 2 ^ (9 + 1)"
    by simp
  ultimately show ?thesis
    using bucket_of_is_floor_log2 by blast
qed

subsection \<open>Recording and merging with the one tag\<close>

lemma eq_tag_lt: "tag_index (CHR ''='') < LATENCY_MAX_DIST"
  by (simp add: tag_index_def LATENCY_MAX_DIST_def)

lemma pool_first_update: "(replicate LATENCY_DIST_POOL_SIZE p)[0 := x] = x # replicate 4 p"
  by (simp add: LATENCY_DIST_POOL_SIZE_def eval_nat_numeral)

lemma pool_first: "replicate LATENCY_DIST_POOL_SIZE p ! 0 = p"
  by (simp add: LATENCY_DIST_POOL_SIZE_def)

lemma dist_lookup_new:
  "dist_lookup (dmtr_new_latency nm) (CHR ''='') = Inr (live nm fresh_dist [])"
  by (simp add: dist_lookup_def dmtr_new_latency_def live_def fresh_dist_def eq_tag_lt
      pool_first_update pool_first)
    (simp add: LATENCY_DIST_POOL_SIZE_def)

lemma dists_live_eq: "dists (live nm d lat) ! tag_index (CHR ''='') = Some 0"
  by (simp add: live_def eq_tag_lt)

lemma dist_lookup_live:
  "dist_lookup (live nm d lat) (CHR ''='') = Inr (live nm d lat)"
  by (simp add: dist_lookup_def dists_live_eq eq_tag_lt)

lemma bucket_in_range: "bucket_of v < LATENCY_NUM_BUCKETS"
  using bucket_of_lt_64 [of v] by (simp add: LATENCY_NUM_BUCKETS_def)

lemma LatencyAddHist_live:
  "LatencyAddHist (live nm d lat) (CHR ''='') v c
     = Inr (live nm (add_weight (bucket_of v) c d) lat, 0)"
  by (simp add: LatencyAddHist_def dist_lookup_live dists_live_eq bucket_in_range Let_def)
    (simp add: live_def add_weight_def)

lemma LatencyAddHist_new:
  "LatencyAddHist (dmtr_new_latency nm) (CHR ''='') v c
     = Inr (live nm (add_weight (bucket_of v) c fresh_dist) [], 0)"
  by (simp add: LatencyAddHist_def dist_lookup_new dists_live_eq bucket_in_range Let_def)
    (simp add: live_def add_weight_def)

lemma LatencyAdd_live:
  "LatencyAdd (live nm d lat) (CHR ''='') v
     = Inr (live nm (add_sample v (add_weight (bucket_of v) 1 d)) (push_sample v lat))"
  by (simp add: LatencyAdd_def LatencyAddHist_live LatencyAddStat_def push_sample_def)
    (simp add: live_def)

lemma LatencyAdd_new:
  "LatencyAdd (dmtr_new_latency nm) (CHR ''='') v
     = Inr (live nm (add_sample v (add_weight (bucket_of v) 1 fresh_dist)) [v])"
  by (simp add: LatencyAdd_def LatencyAddHist_new LatencyAddStat_def)
    (simp add: live_def MAX_ITERATIONS_def)


lemma unat_pow2:
  assumes "b < 64"
  shows "unat (2 ^ b :: 64 word) = 2 ^ b"
proof -
  have "(2 :: nat) ^ b < 2 ^ 64"
    using assms by (simp only: power_strict_increasing_iff one_less_numeral_iff semiring_norm)
  then have "(2 :: nat) ^ b mod 2 ^ LENGTH(64) = 2 ^ b"
    by simp
  moreover have "(2 ^ b :: 64 word) = of_nat (2 ^ b)"
    by simp
  ultimately show ?thesis
    by (simp only: unat_of_nat)
qed

lemma bucket_of_pow2: "b < 64 \<Longrightarrow> bucket_of (2 ^ b) = b"
  by (rule bucket_of_eqI) (simp_all add: unat_pow2)

lemma bucket_of_push_bit: "b < 64 \<Longrightarrow> bucket_of (push_bit b 1) = b"
  by (simp add: bucket_of_pow2)

lemma add_weight_zero: "add_weight b 0 d = d"
  by (simp add: add_weight_def)

lemma sum_hist_buckets_skip:
  "\<forall>b\<in>set bs. buckets ds ! b = 0 \<Longrightarrow> sum_hist_buckets dest ds bs = Inr dest"
  by (induction bs) simp_all

lemma sum_hist_buckets_live:
  assumes "dtype ds = CHR ''=''" and "\<forall>b\<in>set bs. buckets ds ! b \<noteq> 0 \<longrightarrow> b < 64"
  shows "sum_hist_buckets (live nm d lat) ds bs = Inr (live nm (add_buckets d (buckets ds) bs) lat)"
  using assms(2)
proof (induction bs arbitrary: d)
  case Nil
  show ?case by simp
next
  case (Cons b bs)
  show ?case
  proof (cases "buckets ds ! b = 0")
    case True
    with Cons show ?thesis
      by (simp add: add_weight_zero)
  next
    case False
    with Cons.prems have "b < 64"
      by simp
    with False Cons show ?thesis
      by (simp add: assms(1) LatencyAddHist_live bucket_of_pow2)
  qed
qed

lemma sum_hist_buckets_new:
  assumes "dtype ds = CHR ''=''" and "\<forall>b\<in>set bs. buckets ds ! b \<noteq> 0 \<longrightarrow> b < 64"
  shows "sum_hist_buckets (dmtr_new_latency nm) ds bs =
           (if \<forall>b\<in>set bs. buckets ds ! b = 0 then Inr (dmtr_new_latency nm)
            else Inr (live nm (add_buckets fresh_dist (buckets ds) bs) []))"
  using assms(2)
proof (induction bs)
  case Nil
  show ?case by simp
next
  case (Cons b bs)
  show ?case
  proof (cases "buckets ds ! b = 0")
    case True
    with Cons show ?thesis
      by (simp add: add_weight_zero)
  next
    case False
    with Cons.prems have "b < 64" and "\<forall>b\<in>set bs. buckets ds ! b \<noteq> 0 \<longrightarrow> b < 64"
      by simp_all
    with False show ?thesis
      by (simp add: assms(1) LatencyAddHist_new bucket_of_pow2 sum_hist_buckets_live)
  qed
qed

lemma sum_stats_none:
  "\<forall>i\<in>set is. dists s ! i = None \<Longrightarrow> sum_stats dest s is = Inr dest"
  by (induction "is") simp_all

lemma sum_stats_append:
  "sum_stats dest s (xs @ ys) =
     (case sum_stats dest s xs of Inl e \<Rightarrow> Inl e | Inr d \<Rightarrow> sum_stats d s ys)"
  by (induction xs arbitrary: dest) (simp_all split: option.splits)

lemma upt_split:
  assumes "i < n"
  shows "[0..<n] = [0..<i] @ i # [Suc i..<n]"
proof -
  have "[0..<i + (n - i)] = [0..<i] @ [i..<i + (n - i)]"
    by (rule upt_add_eq_append) simp
  moreover have "i + (n - i) = n"
    using assms by simp
  ultimately have "[0..<n] = [0..<i] @ [i..<n]"
    by simp
  then show ?thesis
    using assms by (simp add: upt_conv_Cons)
qed

lemma dists_new_nth: "i < LATENCY_MAX_DIST \<Longrightarrow> dists (dmtr_new_latency nm) ! i = None"
  by (simp add: dmtr_new_latency_def)

lemma dists_live_other:
  "i < LATENCY_MAX_DIST \<Longrightarrow> i \<noteq> tag_index (CHR ''='') \<Longrightarrow> dists (live nm d lat) ! i = None"
  by (simp add: live_def)

lemma sum_stats_from_new:
  "sum_stats dest (dmtr_new_latency nm) [0..<LATENCY_MAX_DIST] = Inr dest"
  by (rule sum_stats_none) (simp add: dists_new_nth)

lemma sum_stats_from_live:
  "sum_stats dest (live nm ds lat) [0..<LATENCY_MAX_DIST] =
     (case dists dest ! tag_index (CHR ''='') of
        None \<Rightarrow> Inl NullDeref
      | Some k \<Rightarrow> Inr (dest\<lparr>distPool := (distPool dest)[k := merge_stats ds (distPool dest ! k)]\<rparr>))"
proof -
  let ?s = "live nm ds lat" and ?t = "tag_index (CHR ''='')"
  have before: "sum_stats dest ?s [0..<?t] = Inr dest"
    using eq_tag_lt by (intro sum_stats_none) (simp add: dists_live_other)
  have after: "sum_stats dest' ?s [Suc ?t..<LATENCY_MAX_DIST] = Inr dest'" for dest'
    by (intro sum_stats_none) (simp add: dists_live_other)
  have pool: "distPool ?s ! 0 = ds"
    by (simp add: live_def)
  show ?thesis
    by (simp only: upt_split [OF eq_tag_lt] sum_stats_append before)
      (simp add: dists_live_eq after pool split: option.splits)
qed

lemma pool_live: "distPoolNext (live nm d lat) = 1" "distPool (live nm d lat) ! 0 = d"
  by (simp_all add: live_def)

lemma dists_new_eq: "dists (dmtr_new_latency nm) ! tag_index (CHR ''='') = None"
  by (simp add: dists_new_nth eq_tag_lt)

lemma pool_new: "distPoolNext (dmtr_new_latency nm) = 0"
  by (simp add: dmtr_new_latency_def)

lemma Latency_Sum_from_new: "Latency_Sum dest (dmtr_new_latency nm) = Inr dest"
  by (simp add: Latency_Sum_def pool_new sum_stats_from_new)

lemma last_bucket_only:
  "buckets ds ! 64 = 0 \<Longrightarrow> \<forall>b\<in>set [0..<LATENCY_NUM_BUCKETS]. buckets ds ! b \<noteq> 0 \<longrightarrow> b < 64"
proof
  fix b
  assume z: "buckets ds ! 64 = 0" and "b \<in> set [0..<LATENCY_NUM_BUCKETS]"
  then have "b \<le> 64"
    by (simp add: LATENCY_NUM_BUCKETS_def)
  with z show "buckets ds ! b \<noteq> 0 \<longrightarrow> b < 64"
    by (cases "b = 64") auto
qed

lemma Latency_Sum_live_live:
  assumes "dtype ds = CHR ''=''" and "buckets ds ! 64 = 0"
  shows "Latency_Sum (live nm d lat) (live nm' ds lat') =
           Inr (live nm (merge_stats ds (add_buckets d (buckets ds) [0..<LATENCY_NUM_BUCKETS])) lat)"
  by (simp add: Latency_Sum_def pool_live sum_hist_buckets_live [OF assms(1) last_bucket_only [OF assms(2)]]
      sum_stats_from_live dists_live_eq)
    (simp add: live_def)

lemma Latency_Sum_new_live:
  assumes "dtype ds = CHR ''=''" and "buckets ds ! 64 = 0"
  shows "Latency_Sum (dmtr_new_latency nm) (live nm' ds lat') =
           (if \<forall>b<LATENCY_NUM_BUCKETS. buckets ds ! b = 0 then Inl NullDeref
            else Inr (live nm (merge_stats ds
                    (add_buckets fresh_dist (buckets ds) [0..<LATENCY_NUM_BUCKETS])) []))"
  by (simp add: Latency_Sum_def pool_live sum_hist_buckets_new [OF assms(1) last_bucket_only [OF assms(2)]]
      sum_stats_from_live dists_live_eq dists_new_eq)
    (simp add: live_def)

subsection \<open>Reachable recorders\<close>

lemma unat_ucast_64_32: "unat (ucast (a :: 64 word) :: 32 word) = unat a mod 2 ^ 32"
  by (simp add: unsigned_ucast_eq take_bit_eq_mod)

lemma ucast_add_64_32: "(ucast ((a::64 word) + b) :: 32 word) = ucast a + ucast b"
proof -
  have "unat (ucast (a + b) :: 32 word) = unat (ucast a + ucast b :: 32 word)"
  proof -
    have "(2 :: nat) ^ 32 dvd 2 ^ 64"
      by (rule le_imp_power_dvd) simp
    then have "((unat a + unat b) mod 2 ^ 64) mod 2 ^ 32 = (unat a + unat b) mod 2 ^ 32"
      by (rule mod_mod_cancel)
    then show ?thesis
      by (simp add: unat_ucast_64_32 unat_word_ariths mod_simps)
  qed
  then show ?thesis
    by (simp only: word_unat_eq_iff)
qed

lemma unat_sum_list_32: "unat (sum_list (ws :: 32 word list)) = sum_list (map unat ws) mod 2 ^ 32"
  by (induction ws) (simp_all add: unat_word_ariths mod_simps)

lemma sum_list_update_add:
  "b < length xs \<Longrightarrow> sum_list (xs[b := xs ! b + c]) = sum_list xs + (c :: 32 word)"
proof (induction xs arbitrary: b)
  case Nil
  then show ?case by simp
next
  case (Cons x xs)
  then show ?case
    by (cases b) (simp_all add: algebra_simps)
qed

lemma sum_list_map2_add:
  "length xs = length ys \<Longrightarrow> sum_list (map2 (+) xs ys) = sum_list xs + sum_list (ys :: 32 word list)"
  by (induction xs ys rule: list_induct2) (simp_all add: algebra_simps)

lemma add_weight_fields:
  "dmin (add_weight b c d) = dmin d" "dmax (add_weight b c d) = dmax d"
  "dtotal (add_weight b c d) = dtotal d" "dcount (add_weight b c d) = dcount d"
  "dtype (add_weight b c d) = dtype d"
  "length (buckets (add_weight b c d)) = length (buckets d)"
  by (simp_all add: add_weight_def)

lemma add_buckets_fields:
  "dmin (add_buckets d ys bs) = dmin d" "dmax (add_buckets d ys bs) = dmax d"
  "dtotal (add_buckets d ys bs) = dtotal d" "dcount (add_buckets d ys bs) = dcount d"
  "dtype (add_buckets d ys bs) = dtype d"
  "length (buckets (add_buckets d ys bs)) = length (buckets d)"
  by (induction bs arbitrary: d; simp add: add_weight_fields)+

lemma add_buckets_nth:
  "distinct bs \<Longrightarrow> k < length (buckets d) \<Longrightarrow>
   buckets (add_buckets d ys bs) ! k
     = (if k \<in> set bs then buckets d ! k + ys ! k else buckets d ! k)"
proof (induction bs arbitrary: d)
  case Nil
  then show ?case by simp
next
  case (Cons b bs)
  from Cons.prems have "distinct bs" and "k < length (buckets (add_weight b (ys ! b) d))"
    by (simp_all add: add_weight_fields)
  note ih = Cons.IH [OF this]
  show ?case
  proof (cases "k = b")
    case True
    with Cons.prems ih show ?thesis
      by (simp add: add_weight_def)
  next
    case False
    then have "buckets (add_weight b (ys ! b) d) ! k = buckets d ! k"
      by (simp add: add_weight_def)
    with False ih show ?thesis
      by simp
  qed
qed

lemma add_buckets_all:
  assumes "length (buckets d) = n" and "length ys = n"
  shows "buckets (add_buckets d ys [0..<n]) = map2 (+) (buckets d) ys"
proof (rule nth_equalityI)
  show "length (buckets (add_buckets d ys [0..<n])) = length (map2 (+) (buckets d) ys)"
    using assms by (simp add: add_buckets_fields)
next
  fix k
  assume "k < length (buckets (add_buckets d ys [0..<n]))"
  then have "k < n"
    using assms by (simp add: add_buckets_fields)
  then show "buckets (add_buckets d ys [0..<n]) ! k = map2 (+) (buckets d) ys ! k"
    using assms by (simp add: add_buckets_nth)
qed

lemma good_fresh: "good_dist fresh_dist"
  by (simp add: good_dist_def fresh_dist_def zero_dist_def LATENCY_NUM_BUCKETS_def
      sum_list_replicate)

lemma good_pristine:
  "ucast (dcount (zero_dist\<lparr>dmin := NOT 0\<rparr>)) = sum_list (buckets (zero_dist\<lparr>dmin := NOT 0\<rparr>))"
  by (simp add: zero_dist_def sum_list_replicate)

lemma add_sample_fields:
  "dcount (add_sample v d) = dcount d + 1" "dtotal (add_sample v d) = dtotal d + v"
  "buckets (add_sample v d) = buckets d" "dtype (add_sample v d) = dtype d"
  "dmin (add_sample v d) = min v (dmin d)" "dmax (add_sample v d) = max v (dmax d)"
  by (auto simp: add_sample_def Let_def min_def max_def)

lemma merge_stats_fields:
  "dcount (merge_stats ds dd) = dcount dd + dcount ds"
  "dtotal (merge_stats ds dd) = dtotal dd + dtotal ds"
  "buckets (merge_stats ds dd) = buckets dd" "dtype (merge_stats ds dd) = dtype dd"
  "dmin (merge_stats ds dd) = min (dmin dd) (dmin ds)"
  "dmax (merge_stats ds dd) = max (dmax dd) (dmax ds)"
  by (auto simp: merge_stats_def Let_def min_def max_def)

lemma good_record:
  assumes "good_dist d"
  shows "good_dist (add_sample v (add_weight (bucket_of v) 1 d))"
proof -
  have lt: "bucket_of v < length (buckets d)" and ne: "bucket_of v \<noteq> 64"
    using assms bucket_of_lt_64 [of v] by (simp_all add: good_dist_def LATENCY_NUM_BUCKETS_def)
  have "sum_list (buckets (add_weight (bucket_of v) 1 d)) = sum_list (buckets d) + 1"
    using lt by (simp add: add_weight_def sum_list_update_add)
  moreover have "buckets (add_weight (bucket_of v) 1 d) ! 64 = buckets d ! 64"
    using ne by (simp add: add_weight_def)
  ultimately show ?thesis
    using assms
    by (simp add: good_dist_def add_sample_fields add_weight_fields ucast_add_64_32)
qed

lemma good_merge:
  assumes "good_dist d" and "good_dist ds"
  shows "good_dist (merge_stats ds (add_buckets d (buckets ds) [0..<LATENCY_NUM_BUCKETS]))"
proof -
  have len: "length (buckets d) = LATENCY_NUM_BUCKETS" "length (buckets ds) = LATENCY_NUM_BUCKETS"
    using assms by (simp_all add: good_dist_def)
  have b: "buckets (add_buckets d (buckets ds) [0..<LATENCY_NUM_BUCKETS])
             = map2 (+) (buckets d) (buckets ds)"
    using len by (rule add_buckets_all)
  have "sum_list (map2 (+) (buckets d) (buckets ds)) = sum_list (buckets d) + sum_list (buckets ds)"
    using len by (simp add: sum_list_map2_add)
  moreover have "map2 (+) (buckets d) (buckets ds) ! 64 = 0"
    using assms len by (simp add: good_dist_def LATENCY_NUM_BUCKETS_def)
  ultimately show ?thesis
    using assms len
    by (simp add: good_dist_def merge_stats_fields add_buckets_fields b ucast_add_64_32)
qed


lemma shape_new: "shape (dmtr_new_latency nm)"
  by (auto simp: shape_def)

lemma shape_live: "good_dist d \<Longrightarrow> length lat \<le> MAX_ITERATIONS \<Longrightarrow> shape (live nm d lat)"
  by (auto simp: shape_def)

lemma push_sample_length: "length lat \<le> MAX_ITERATIONS \<Longrightarrow> length (push_sample v lat) \<le> MAX_ITERATIONS"
  by (simp add: push_sample_def)

lemma record_zero: "dmtr_record_latency l 0 = Inr (0, l)"
  by (simp add: dmtr_record_latency_def)

lemma record_new:
  "ns \<noteq> 0 \<Longrightarrow> dmtr_record_latency (dmtr_new_latency nm) ns
     = Inr (0, live nm (add_sample ns (add_weight (bucket_of ns) 1 fresh_dist)) [ns])"
  by (simp add: dmtr_record_latency_def LatencyAdd_new)

lemma record_live:
  "ns \<noteq> 0 \<Longrightarrow> dmtr_record_latency (live nm d lat) ns
     = Inr (0, live nm (add_sample ns (add_weight (bucket_of ns) 1 d)) (push_sample ns lat))"
  by (simp add: dmtr_record_latency_def LatencyAdd_live)

lemma record_shape:
  assumes "shape l"
  shows "\<exists>l'. dmtr_record_latency l ns = Inr (0, l') \<and> shape l'"
proof (cases "ns = 0")
  case True
  with assms show ?thesis
    by (simp add: record_zero)
next
  case False
  from assms consider nm where "l = dmtr_new_latency nm"
    | nm d lat where "l = live nm d lat" "good_dist d" "length lat \<le> MAX_ITERATIONS"
    by (auto simp: shape_def)
  then show ?thesis
  proof cases
    case 1
    have "shape (live nm (add_sample ns (add_weight (bucket_of ns) 1 fresh_dist)) [ns])"
      by (rule shape_live [OF good_record [OF good_fresh]]) (simp add: MAX_ITERATIONS_def)
    with 1 False show ?thesis
      by (simp add: record_new)
  next
    case 2
    have "shape (live nm (add_sample ns (add_weight (bucket_of ns) 1 d)) (push_sample ns lat))"
      using 2 by (intro shape_live good_record push_sample_length)
    with 2 False show ?thesis
      by (simp add: record_live)
  qed
qed

lemma merge_shape:
  assumes "shape dest" and "shape summand" and "Latency_Sum dest summand = Inr dest'"
  shows "shape dest'"
proof -
  from assms(2) consider nm' where "summand = dmtr_new_latency nm'"
    | nm' ds lat' where "summand = live nm' ds lat'" "good_dist ds"
    by (auto simp: shape_def)
  then show ?thesis
  proof cases
    case 1
    with assms show ?thesis
      by (simp add: Latency_Sum_from_new)
  next
    case 2
    then have ds: "dtype ds = CHR ''=''" "buckets ds ! 64 = 0"
      by (simp_all add: good_dist_def)
    from assms(1) consider nm where "dest = dmtr_new_latency nm"
      | nm d lat where "dest = live nm d lat" "good_dist d" "length lat \<le> MAX_ITERATIONS"
      by (auto simp: shape_def)
    then show ?thesis
    proof cases
      case 1
      have "shape (live nm (merge_stats ds
              (add_buckets fresh_dist (buckets ds) [0..<LATENCY_NUM_BUCKETS])) [])"
        using 2 by (intro shape_live good_merge good_fresh) simp_all
      with assms(3) 1 2 show ?thesis
        by (simp add: Latency_Sum_new_live [OF ds] split: if_splits)
    next
      case d: 2
      have "shape (live nm (merge_stats ds
              (add_buckets d (buckets ds) [0..<LATENCY_NUM_BUCKETS])) lat)"
        using 2 d by (intro shape_live good_merge)
      with assms(3) 2 d show ?thesis
        by (simp add: Latency_Sum_live_live [OF ds])
    qed
  qed
qed

lemma reachable_shape: "reachable l \<Longrightarrow> shape l"
proof (induction rule: reachable.induct)
  case (reach_create nm)
  show ?case by (rule shape_new)
next
  case (reach_record l ns r l')
  with record_shape [of l ns] show ?case
    by auto
next
  case (reach_merge dest summand dest')
  then show ?case
    by (blast intro: merge_shape)
qed

text \<open>
  C9. For every recorder that the public operations can build, \<^verbatim>\<open>dmtr_record_latency\<close>
  with \<open>ns = 0\<close> returns the status 0 and leaves the whole recorder unchanged, and for
  every \<open>ns\<close> the call returns the status 0.
\<close>

theorem record_zero_ignored:
  "reachable l \<Longrightarrow>
     dmtr_record_latency l 0 = Inr (0, l) \<and> (\<forall>ns. \<exists>l'. dmtr_record_latency l ns = Inr (0, l'))"
  using record_shape [OF reachable_shape, of l] by (auto simp: record_zero)

lemma pool_members:
  assumes "shape l" and "d \<in> set (distPool l)"
  shows "d = zero_dist\<lparr>dmin := NOT 0\<rparr> \<or> good_dist d"
  using assms by (auto simp: shape_def dmtr_new_latency_def live_def)

lemma count_mod_of_ucast:
  assumes "ucast (dcount d) = sum_list (buckets d)"
  shows "unat (dcount d) mod 2 ^ 32 = sum_list (map unat (buckets d)) mod 2 ^ 32"
proof -
  have "unat (ucast (dcount d) :: 32 word) = unat (sum_list (buckets d))"
    using assms by simp
  then show ?thesis
    by (simp only: unat_ucast_64_32 unat_sum_list_32)
qed

text \<open>
  C2, as amended. For every distribution in the pool of every recorder reachable through
  create, record and merge, the count and the sum of the 65 bucket counts agree modulo
  \<open>2 ^ 32\<close>: the buckets are 32-bit counters and the count is a 64-bit counter. They are
  equal when both are below \<open>2 ^ 32\<close>.
\<close>

theorem count_bucket_sum_mod:
  assumes "reachable l" and "d \<in> set (distPool l)"
  shows "length (buckets d) = LATENCY_NUM_BUCKETS
    \<and> unat (dcount d) mod 2 ^ 32 = sum_list (map unat (buckets d)) mod 2 ^ 32
    \<and> (unat (dcount d) < 2 ^ 32 \<and> sum_list (map unat (buckets d)) < 2 ^ 32
         \<longrightarrow> unat (dcount d) = sum_list (map unat (buckets d)))"
proof -
  from pool_members [OF reachable_shape [OF assms(1)] assms(2)]
  have u: "ucast (dcount d) = sum_list (buckets d)"
    and len: "length (buckets d) = LATENCY_NUM_BUCKETS"
    by (auto simp: good_dist_def zero_dist_def sum_list_replicate)
  from count_mod_of_ucast [OF u]
  have m: "unat (dcount d) mod 2 ^ 32 = sum_list (map unat (buckets d)) mod 2 ^ 32" .
  then have "unat (dcount d) < 2 ^ 32 \<and> sum_list (map unat (buckets d)) < 2 ^ 32
         \<longrightarrow> unat (dcount d) = sum_list (map unat (buckets d))"
    by auto
  with len m show ?thesis
    by blast
qed


lemma dist_eqI:
  fixes d d' :: Latency_Dist_t
  assumes "dmin d = dmin d'" "dmax d = dmax d'" "dtotal d = dtotal d'" "dcount d = dcount d'"
    "buckets d = buckets d'" "dtype d = dtype d'"
  shows "d = d'"
  using assms by simp

lemma map2_add_zero:
  "length ys = n \<Longrightarrow> map2 (+) (replicate n 0) ys = (ys :: 32 word list)"
  by (rule nth_equalityI) simp_all

lemma map2_add_single:
  "map2 (+) ((replicate n 0)[0 := x]) ((replicate n 0)[0 := y]) = (replicate n (0 :: 32 word))[0 := x + y]"
proof (rule nth_equalityI)
  show "length (map2 (+) ((replicate n 0)[0 := x]) ((replicate n 0)[0 := y]))
      = length ((replicate n (0 :: 32 word))[0 := x + y])"
    by simp
next
  fix k
  assume "k < length (map2 (+) ((replicate n 0)[0 := x]) ((replicate n 0)[0 := y]))"
  then have "k < n"
    by simp
  then show "map2 (+) ((replicate n 0)[0 := x]) ((replicate n 0)[0 := y]) ! k
      = (replicate n (0 :: 32 word))[0 := x + y] ! k"
    by (cases "k = 0") simp_all
qed

lemma bucket_list_simps:
  "(replicate LATENCY_NUM_BUCKETS z)[0 := x] ! 0 = x"
  "(replicate LATENCY_NUM_BUCKETS z)[0 := x] ! 64 = z"
  "replicate LATENCY_NUM_BUCKETS z ! 0 = z"
  "replicate LATENCY_NUM_BUCKETS z ! 64 = z"
  by (simp_all add: LATENCY_NUM_BUCKETS_def)

lemma sum_unat_single:
  "0 < n \<Longrightarrow> sum_list (map unat ((replicate n (0 :: 32 word))[0 := x])) = unat x"
  by (cases n) (simp_all add: sum_list_replicate)

lemma pow2_dist_fields:
  "dmin (pow2_dist k) = 1" "dmax (pow2_dist k) = 1" "dtotal (pow2_dist k) = 2 ^ k"
  "dcount (pow2_dist k) = 2 ^ k" "dtype (pow2_dist k) = CHR ''=''"
  "buckets (pow2_dist k) = (replicate LATENCY_NUM_BUCKETS 0)[0 := 2 ^ k]"
  "length (buckets (pow2_dist k)) = LATENCY_NUM_BUCKETS"
  by (simp_all add: pow2_dist_def)

lemma fresh_dist_fields:
  "dmin fresh_dist = NOT 0" "dmax fresh_dist = 0" "dtotal fresh_dist = 0"
  "dcount fresh_dist = 0" "dtype fresh_dist = CHR ''=''"
  "buckets fresh_dist = replicate LATENCY_NUM_BUCKETS 0"
  by (simp_all add: fresh_dist_def zero_dist_def)

lemma one_sample_dist:
  "add_sample 1 (add_weight (bucket_of 1) 1 fresh_dist) = pow2_dist 0"
  by (rule dist_eqI)
    (simp_all add: add_sample_fields add_weight_fields fresh_dist_fields pow2_dist_fields
      bucket_of_le_1 add_weight_def LATENCY_NUM_BUCKETS_def)

lemma copy_pow2:
  assumes "j < 32"
  shows "Latency_Sum (dmtr_new_latency nm') (live nm (pow2_dist j) lat)
           = Inr (live nm' (pow2_dist j) [])"
proof -
  have "buckets (pow2_dist j) ! 0 \<noteq> 0"
    using assms by (simp add: pow2_dist_fields bucket_list_simps)
  moreover have "0 < LATENCY_NUM_BUCKETS"
    by (simp add: LATENCY_NUM_BUCKETS_def)
  ultimately have nz: "\<not> (\<forall>b<LATENCY_NUM_BUCKETS. buckets (pow2_dist j) ! b = 0)"
    by blast
  have "merge_stats (pow2_dist j)
          (add_buckets fresh_dist (buckets (pow2_dist j)) [0..<LATENCY_NUM_BUCKETS])
        = pow2_dist j"
    by (rule dist_eqI)
      (simp_all add: merge_stats_fields add_buckets_fields add_buckets_all fresh_dist_fields
        pow2_dist_fields map2_add_zero)
  with nz show ?thesis
    by (simp add: Latency_Sum_new_live pow2_dist_fields bucket_list_simps)
qed

lemma add_pow2:
  "Latency_Sum (live nm (pow2_dist j) lat) (live nm' (pow2_dist j) lat')
     = Inr (live nm (pow2_dist (Suc j)) lat)"
proof -
  have "merge_stats (pow2_dist j)
          (add_buckets (pow2_dist j) (buckets (pow2_dist j)) [0..<LATENCY_NUM_BUCKETS])
        = pow2_dist (Suc j)"
    by (rule dist_eqI)
      (simp_all add: merge_stats_fields add_buckets_fields add_buckets_all pow2_dist_fields
        map2_add_single)
  then show ?thesis
    by (simp add: Latency_Sum_live_live pow2_dist_fields bucket_list_simps)
qed

lemma double_up_pow2:
  "j + k \<le> 32 \<Longrightarrow> double_up k (live nm (pow2_dist j) lat) = Inr (live nm (pow2_dist (j + k)) lat)"
proof (induction k arbitrary: j)
  case 0
  show ?case by simp
next
  case (Suc k)
  then have "j < 32" and "Suc j + k \<le> 32"
    by simp_all
  with Suc.IH [of "Suc j"] show ?case
    by (simp add: copy_pow2 add_pow2)
qed

lemma reachable_double_up:
  "reachable l \<Longrightarrow> double_up k l = Inr l' \<Longrightarrow> reachable l'"
proof (induction k arbitrary: l)
  case 0
  then show ?case by simp
next
  case (Suc k)
  from Suc.prems(2) obtain c l1 where
    c: "Latency_Sum (dmtr_new_latency ''copy'') l = Inr c" and
    l1: "Latency_Sum l c = Inr l1" and rest: "double_up k l1 = Inr l'"
    by (auto split: sum.splits)
  have "reachable c"
    using reach_create Suc.prems(1) c by (rule reach_merge)
  with Suc.prems(1) have "reachable l1"
    using l1 by (rule reach_merge)
  then show ?case
    using rest by (rule Suc.IH)
qed

lemma record_one: "dmtr_record_latency (dmtr_new_latency nm) 1 = Inr (0, live nm (pow2_dist 0) [1])"
  by (simp add: record_new one_sample_dist)

lemma reachable_pow2: "k \<le> 32 \<Longrightarrow> reachable (live nm (pow2_dist k) [1])"
proof -
  assume "k \<le> 32"
  then have "double_up k (live nm (pow2_dist 0) [1]) = Inr (live nm (pow2_dist k) [1])"
    using double_up_pow2 [of 0 k nm "[1]"] by simp
  moreover have "reachable (live nm (pow2_dist 0) [1])"
    using reach_create record_one by (rule reach_record)
  ultimately show ?thesis
    by (rule reachable_double_up [rotated])
qed

text \<open>
  The claim C2 as stated fails after \<open>2 ^ 32\<close> samples in one bucket: one sample of 1 ns
  is recorded and the recorder is doubled 32 times. The count is then \<open>2 ^ 32\<close> and every
  bucket reads 0.
\<close>

theorem count_bucket_sum_counterexample:
  "dmtr_record_latency (dmtr_new_latency ''t'') 1 = Inr (0, live ''t'' (pow2_dist 0) [1])
   \<and> double_up 32 (live ''t'' (pow2_dist 0) [1]) = Inr (live ''t'' (pow2_dist 32) [1])
   \<and> reachable (live ''t'' (pow2_dist 32) [1])
   \<and> distPool (live ''t'' (pow2_dist 32) [1]) ! 0 = pow2_dist 32
   \<and> pow2_dist 32 \<in> set (distPool (live ''t'' (pow2_dist 32) [1]))
   \<and> unat (dcount (pow2_dist 32)) = 4294967296
   \<and> sum_list (map unat (buckets (pow2_dist 32))) = 0
   \<and> unat (dcount (pow2_dist 32)) \<noteq> sum_list (map unat (buckets (pow2_dist 32)))"
proof -
  have run: "double_up 32 (live ''t'' (pow2_dist 0) [1]) = Inr (live ''t'' (pow2_dist 32) [1])"
    using double_up_pow2 [of 0 32 "''t''" "[1]"] by simp
  have reach: "reachable (live ''t'' (pow2_dist 32) [1])"
    by (rule reachable_pow2) simp
  have slot: "distPool (live ''t'' (pow2_dist 32) [1]) ! 0 = pow2_dist 32"
    by (simp add: pool_live)
  have mem: "pow2_dist 32 \<in> set (distPool (live ''t'' (pow2_dist 32) [1]))"
    by (simp add: live_def)
  have cnt: "unat (dcount (pow2_dist 32)) = 4294967296"
    by (simp add: pow2_dist_fields)
  have "buckets (pow2_dist 32) = replicate LATENCY_NUM_BUCKETS 0"
  proof -
    have "(2 ^ 32 :: 32 word) = 0"
      by simp
    then have "buckets (pow2_dist 32) = (replicate LATENCY_NUM_BUCKETS 0)[0 := 0]"
      by (simp only: pow2_dist_fields)
    also have "\<dots> = replicate LATENCY_NUM_BUCKETS 0"
      by (rule nth_equalityI) (simp_all add: nth_list_update)
    finally show ?thesis .
  qed
  then have total: "sum_list (map unat (buckets (pow2_dist 32))) = 0"
    by simp
  have differ: "unat (dcount (pow2_dist 32)) \<noteq> sum_list (map unat (buckets (pow2_dist 32)))"
    by (simp only: cnt total)
  show ?thesis
    by (intro conjI record_one run reach slot mem cnt total differ)
qed

theorem count_bucket_sum_mod_witness:
  "reachable (live ''t'' (pow2_dist 3) [1])
   \<and> pow2_dist 3 \<in> set (distPool (live ''t'' (pow2_dist 3) [1]))
   \<and> unat (dcount (pow2_dist 3)) = 8
   \<and> sum_list (map unat (buckets (pow2_dist 3))) = 8"
proof -
  have r: "reachable (live ''t'' (pow2_dist 3) [1])"
    by (rule reachable_pow2) simp
  have m: "pow2_dist 3 \<in> set (distPool (live ''t'' (pow2_dist 3) [1]))"
    by (simp add: live_def)
  have c: "unat (dcount (pow2_dist 3)) = 8"
    by (simp add: pow2_dist_fields)
  have "sum_list (map unat (buckets (pow2_dist 3))) = unat (2 ^ 3 :: 32 word)"
    by (simp only: pow2_dist_fields) (simp add: sum_unat_single LATENCY_NUM_BUCKETS_def)
  then have "sum_list (map unat (buckets (pow2_dist 3))) < 2 ^ 32"
    by simp
  with count_bucket_sum_mod [OF r m] c r m show ?thesis
    by simp
qed

theorem record_zero_ignored_witness:
  "reachable (live ''t'' (pow2_dist 0) [1])
   \<and> dmtr_record_latency (live ''t'' (pow2_dist 0) [1]) 0 = Inr (0, live ''t'' (pow2_dist 0) [1])
   \<and> (\<exists>l'. dmtr_record_latency (live ''t'' (pow2_dist 0) [1]) 7 = Inr (0, l'))"
proof -
  have r: "reachable (live ''t'' (pow2_dist 0) [1])"
    by (rule reachable_pow2) simp
  from record_zero_ignored [OF r] r show ?thesis
    by blast
qed

subsection \<open>The pool\<close>

lemma dist_lookup_exhausted:
  assumes "distPoolNext l = LATENCY_DIST_POOL_SIZE" and "tag_index ty < LATENCY_MAX_DIST"
    and "dists l ! tag_index ty = None"
  shows "dist_lookup l ty = Inl Abort"
  using assms by (simp add: dist_lookup_def)

lemma LatencyAdd_new_tag:
  assumes "tag_index ty < LATENCY_MAX_DIST" and "length (dists l) = LATENCY_MAX_DIST"
    and "dists l ! tag_index ty = None" and "distPoolNext l < LATENCY_DIST_POOL_SIZE"
  shows "\<exists>l'. LatencyAdd l ty v = Inr l' \<and> distPoolNext l' = Suc (distPoolNext l)
           \<and> dists l' = (dists l)[tag_index ty := Some (distPoolNext l)]"
  using assms bucket_in_range [of v]
  by (simp add: LatencyAdd_def LatencyAddHist_def dist_lookup_def LatencyAddStat_def Let_def)

text \<open>
  C4. When the pool of a recorder already holds 5 tags, a step that asks for the
  distribution of a tag that is not in the pool (\<^verbatim>\<open>LatencyAddHist\<close>, and so \<^verbatim>\<open>LatencyAdd\<close>
  and the step of \<^verbatim>\<open>Latency_Sum\<close> for a non-empty bucket) aborts the process; it does not
  return.
\<close>

theorem pool_exhausted_aborts:
  assumes "distPoolNext l = LATENCY_DIST_POOL_SIZE" and "tag_index ty < LATENCY_MAX_DIST"
    and "dists l ! tag_index ty = None"
  shows "LatencyAddHist l ty val count = Inl Abort
    \<and> LatencyAdd l ty val = Inl Abort
    \<and> (\<forall>d b bs. dtype d = ty \<and> buckets d ! b \<noteq> 0 \<and> b < 64
          \<longrightarrow> sum_hist_buckets l d (b # bs) = Inl Abort)"
proof -
  have hist: "LatencyAddHist l ty v c = Inl Abort" for v c
    by (simp add: LatencyAddHist_def dist_lookup_exhausted [OF assms])
  then show ?thesis
    by (simp add: LatencyAdd_def)
qed

lemma five_tags:
  "\<exists>l. add_tags (dmtr_new_latency nm) ''abcde'' = Inr l \<and> distPoolNext l = 5
     \<and> dists l = (replicate LATENCY_MAX_DIST None)
          [tag_index CHR ''a'' := Some 0, tag_index CHR ''b'' := Some 1,
           tag_index CHR ''c'' := Some 2, tag_index CHR ''d'' := Some 3,
           tag_index CHR ''e'' := Some 4]"
proof -
  let ?l0 = "dmtr_new_latency nm"
  have l0: "length (dists ?l0) = LATENCY_MAX_DIST" "distPoolNext ?l0 = 0"
    "dists ?l0 = replicate LATENCY_MAX_DIST None"
    by (simp_all add: dmtr_new_latency_def)
  have idx: "tag_index CHR ''a'' = 97" "tag_index CHR ''b'' = 98" "tag_index CHR ''c'' = 99"
    "tag_index CHR ''d'' = 100" "tag_index CHR ''e'' = 101"
    by (simp_all add: tag_index_def)
  obtain l1 where l1: "LatencyAdd ?l0 CHR ''a'' 1 = Inr l1" "distPoolNext l1 = 1"
    "dists l1 = (replicate LATENCY_MAX_DIST None)[97 := Some 0]"
    using LatencyAdd_new_tag [of "CHR ''a''" ?l0 1] l0
    by (auto simp: idx LATENCY_MAX_DIST_def LATENCY_DIST_POOL_SIZE_def)
  obtain l2 where l2: "LatencyAdd l1 CHR ''b'' 1 = Inr l2" "distPoolNext l2 = 2"
    "dists l2 = (replicate LATENCY_MAX_DIST None)[97 := Some 0, 98 := Some 1]"
    using LatencyAdd_new_tag [of "CHR ''b''" l1 1] l1
    by (auto simp: idx LATENCY_MAX_DIST_def LATENCY_DIST_POOL_SIZE_def)
  obtain l3 where l3: "LatencyAdd l2 CHR ''c'' 1 = Inr l3" "distPoolNext l3 = 3"
    "dists l3 = (replicate LATENCY_MAX_DIST None)[97 := Some 0, 98 := Some 1, 99 := Some 2]"
    using LatencyAdd_new_tag [of "CHR ''c''" l2 1] l2
    by (auto simp: idx LATENCY_MAX_DIST_def LATENCY_DIST_POOL_SIZE_def)
  obtain l4 where l4: "LatencyAdd l3 CHR ''d'' 1 = Inr l4" "distPoolNext l4 = 4"
    "dists l4 = (replicate LATENCY_MAX_DIST None)[97 := Some 0, 98 := Some 1, 99 := Some 2,
       100 := Some 3]"
    using LatencyAdd_new_tag [of "CHR ''d''" l3 1] l3
    by (auto simp: idx LATENCY_MAX_DIST_def LATENCY_DIST_POOL_SIZE_def)
  obtain l5 where l5: "LatencyAdd l4 CHR ''e'' 1 = Inr l5" "distPoolNext l5 = 5"
    "dists l5 = (replicate LATENCY_MAX_DIST None)[97 := Some 0, 98 := Some 1, 99 := Some 2,
       100 := Some 3, 101 := Some 4]"
    using LatencyAdd_new_tag [of "CHR ''e''" l4 1] l4
    by (auto simp: idx LATENCY_MAX_DIST_def LATENCY_DIST_POOL_SIZE_def)
  show ?thesis
    using l1(1) l2(1) l3(1) l4(1) l5 by (simp add: idx)
qed

theorem pool_exhausted_aborts_witness:
  "\<exists>l. add_tags (dmtr_new_latency ''t'') ''abcde'' = Inr l
     \<and> distPoolNext l = LATENCY_DIST_POOL_SIZE
     \<and> tag_index CHR ''f'' < LATENCY_MAX_DIST
     \<and> dists l ! tag_index CHR ''f'' = None
     \<and> LatencyAddHist l CHR ''f'' 1 1 = Inl Abort
     \<and> LatencyAdd l CHR ''f'' 1 = Inl Abort"
proof -
  from five_tags [of "''t''"] obtain l where
    l: "add_tags (dmtr_new_latency ''t'') ''abcde'' = Inr l" "distPoolNext l = 5"
    "dists l = (replicate LATENCY_MAX_DIST None)
          [tag_index CHR ''a'' := Some 0, tag_index CHR ''b'' := Some 1,
           tag_index CHR ''c'' := Some 2, tag_index CHR ''d'' := Some 3,
           tag_index CHR ''e'' := Some 4]"
    by blast
  have full: "distPoolNext l = LATENCY_DIST_POOL_SIZE"
    using l(2) by (simp add: LATENCY_DIST_POOL_SIZE_def)
  have idx: "tag_index CHR ''f'' < LATENCY_MAX_DIST"
    by (simp add: tag_index_def LATENCY_MAX_DIST_def)
  have none: "dists l ! tag_index CHR ''f'' = None"
    by (simp add: l(3) tag_index_def LATENCY_MAX_DIST_def)
  from pool_exhausted_aborts [OF full idx none, of 1 1] l(1) full idx none show ?thesis
    by blast
qed


subsection \<open>The second loop of the merge\<close>

lemma covers_refl: "covers l l"
  by (simp add: covers_def)

lemma covers_trans: "covers l l' \<Longrightarrow> covers l' l'' \<Longrightarrow> covers l l''"
  by (simp add: covers_def)

lemma LatencyAddHist_covers:
  assumes "LatencyAddHist l ty v c = Inr (l', k)"
  shows "covers l l' \<and> dists l' ! tag_index ty \<noteq> None"
proof -
  from assms obtain l1 where l1: "dist_lookup l ty = Inr l1"
    by (auto simp: LatencyAddHist_def split: sum.splits)
  with assms have d: "dists l' = dists l1" and some: "dists l1 ! tag_index ty \<noteq> None"
    by (auto simp: LatencyAddHist_def Let_def split: option.splits if_splits)
  have "covers l l1"
  proof (cases "dists l ! tag_index ty = None")
    case True
    with l1 have eq: "dists l1 = (dists l)[tag_index ty := Some (distPoolNext l)]"
      by (auto simp: dist_lookup_def split: if_splits)
    have "dists l1 ! t \<noteq> None" if "dists l ! t \<noteq> None" for t
    proof -
      from that True have "t \<noteq> tag_index ty"
        by auto
      with that show ?thesis
        by (simp add: eq)
    qed
    then show ?thesis
      by (simp add: covers_def eq)
  next
    case False
    with l1 have "l1 = l"
      by (auto simp: dist_lookup_def split: if_splits)
    then show ?thesis
      by (simp add: covers_refl)
  qed
  with d some show ?thesis
    by (simp add: covers_def)
qed

lemma sum_hist_buckets_covers:
  assumes "sum_hist_buckets l d bs = Inr l'"
  shows "covers l l' \<and> ((\<exists>b\<in>set bs. buckets d ! b \<noteq> 0) \<longrightarrow> dists l' ! tag_index (dtype d) \<noteq> None)"
  using assms
proof (induction bs arbitrary: l)
  case Nil
  then show ?case by (simp add: covers_refl)
next
  case (Cons b bs)
  show ?case
  proof (cases "buckets d ! b = 0")
    case True
    with Cons show ?thesis by simp
  next
    case False
    with Cons.prems obtain l1 k where
      step: "LatencyAddHist l (dtype d) (push_bit b 1) (buckets d ! b) = Inr (l1, k)"
      and rest: "sum_hist_buckets l1 d bs = Inr l'"
      by (auto split: if_splits sum.splits)
    from LatencyAddHist_covers [OF step] Cons.IH [OF rest]
    have "covers l l'" and "dists l' ! tag_index (dtype d) \<noteq> None"
      by (auto intro: covers_trans simp: covers_def)
    then show ?thesis by simp
  qed
qed

lemma sum_hist_covers:
  assumes "sum_hist l s js = Inr l'"
  shows "covers l l' \<and> (\<forall>j\<in>set js.
           (\<exists>b<LATENCY_NUM_BUCKETS. buckets (distPool s ! j) ! b \<noteq> 0)
             \<longrightarrow> dists l' ! tag_index (dtype (distPool s ! j)) \<noteq> None)"
  using assms
proof (induction js arbitrary: l)
  case Nil
  then show ?case by (simp add: covers_refl)
next
  case (Cons j js)
  from Cons.prems obtain l1 where
    first: "sum_hist_buckets l (distPool s ! j) [0..<LATENCY_NUM_BUCKETS] = Inr l1"
    and rest: "sum_hist l1 s js = Inr l'"
    by (auto split: sum.splits)
  from sum_hist_buckets_covers [OF first]
  have c1: "covers l l1"
    and t1: "(\<exists>b<LATENCY_NUM_BUCKETS. buckets (distPool s ! j) ! b \<noteq> 0)
           \<longrightarrow> dists l1 ! tag_index (dtype (distPool s ! j)) \<noteq> None"
    by auto
  from Cons.IH [OF rest]
  have c2: "covers l1 l'"
    and t2: "\<forall>j\<in>set js. (\<exists>b<LATENCY_NUM_BUCKETS. buckets (distPool s ! j) ! b \<noteq> 0)
             \<longrightarrow> dists l' ! tag_index (dtype (distPool s ! j)) \<noteq> None"
    by auto
  from t1 c2 have "(\<exists>b<LATENCY_NUM_BUCKETS. buckets (distPool s ! j) ! b \<noteq> 0)
           \<longrightarrow> dists l' ! tag_index (dtype (distPool s ! j)) \<noteq> None"
    by (simp add: covers_def)
  with c1 c2 t2 show ?case
    by (auto intro: covers_trans)
qed

lemma sum_stats_returns:
  assumes "\<forall>t\<in>set ts. dists s ! t \<noteq> None \<longrightarrow> dists l ! t \<noteq> None"
  shows "\<exists>l'. sum_stats l s ts = Inr l'"
  using assms
proof (induction ts arbitrary: l)
  case Nil
  show ?case by simp
next
  case (Cons t ts)
  show ?case
  proof (cases "dists s ! t")
    case None
    with Cons show ?thesis by simp
  next
    case (Some j)
    with Cons.prems obtain k where k: "dists l ! t = Some k"
      by auto
    let ?l1 = "l\<lparr>distPool := (distPool l)[k := merge_stats (distPool s ! j) (distPool l ! k)]\<rparr>"
    have "\<forall>t\<in>set ts. dists s ! t \<noteq> None \<longrightarrow> dists ?l1 ! t \<noteq> None"
      using Cons.prems by simp
    from Cons.IH [OF this] Some k show ?thesis
      by simp
  qed
qed

text \<open>
  Where the second loop of \<^verbatim>\<open>Latency_Sum\<close> is safe: when every tag of the summand points
  to a used pool slot that carries this tag and has at least one non-empty bucket, then
  after the first loop has returned \<open>dest\<close> has a distribution for every tag of the
  summand, the second loop returns, and the merge does not dereference a null pointer.
\<close>

lemma merge_second_loop_safe:
  assumes "\<forall>t<LATENCY_MAX_DIST. \<forall>j. dists summand ! t = Some j \<longrightarrow>
             j < distPoolNext summand \<and> tag_index (dtype (distPool summand ! j)) = t
             \<and> (\<exists>b<LATENCY_NUM_BUCKETS. buckets (distPool summand ! j) ! b \<noteq> 0)"
    and "sum_hist dest summand [0..<distPoolNext summand] = Inr dest1"
  shows "(\<forall>t<LATENCY_MAX_DIST. dists summand ! t \<noteq> None \<longrightarrow> dists dest1 ! t \<noteq> None)
    \<and> (\<exists>dest'. sum_stats dest1 summand [0..<LATENCY_MAX_DIST] = Inr dest')
    \<and> Latency_Sum dest summand \<noteq> Inl NullDeref"
proof -
  have present: "\<forall>t<LATENCY_MAX_DIST. dists summand ! t \<noteq> None \<longrightarrow> dists dest1 ! t \<noteq> None"
  proof (intro allI impI)
    fix t
    assume "t < LATENCY_MAX_DIST" and "dists summand ! t \<noteq> None"
    then obtain j where "dists summand ! t = Some j"
      by auto
    with assms(1) \<open>t < LATENCY_MAX_DIST\<close>
    have j: "j < distPoolNext summand" "tag_index (dtype (distPool summand ! j)) = t"
      "\<exists>b<LATENCY_NUM_BUCKETS. buckets (distPool summand ! j) ! b \<noteq> 0"
      by blast+
    from sum_hist_covers [OF assms(2)] j(1,3)
    have "dists dest1 ! tag_index (dtype (distPool summand ! j)) \<noteq> None"
      by simp
    with j(2) show "dists dest1 ! t \<noteq> None"
      by simp
  qed
  then have "\<forall>t\<in>set [0..<LATENCY_MAX_DIST]. dists summand ! t \<noteq> None \<longrightarrow> dists dest1 ! t \<noteq> None"
    by simp
  from sum_stats_returns [OF this]
  obtain dest' where ret: "sum_stats dest1 summand [0..<LATENCY_MAX_DIST] = Inr dest'"
    by blast
  then have "Latency_Sum dest summand \<noteq> Inl NullDeref"
    by (simp add: Latency_Sum_def assms(2))
  with present ret show ?thesis
    by blast
qed


lemma pow2_dist_32_buckets: "buckets (pow2_dist 32) = replicate LATENCY_NUM_BUCKETS 0"
proof -
  have "(2 ^ 32 :: 32 word) = 0"
    by simp
  then have "buckets (pow2_dist 32) = (replicate LATENCY_NUM_BUCKETS 0)[0 := 0]"
    by (simp only: pow2_dist_fields)
  also have "\<dots> = replicate LATENCY_NUM_BUCKETS 0"
    by (rule nth_equalityI) (simp_all add: nth_list_update)
  finally show ?thesis .
qed

text \<open>
  C5. The second loop of \<^verbatim>\<open>Latency_Sum\<close> tests \<^verbatim>\<open>ds\<close> and reads \<^verbatim>\<open>dd->min\<close> with no test of
  \<^verbatim>\<open>dd\<close>. The code does not keep what the claim says: after \<open>2 ^ 32\<close> samples of 1 ns
  (one sample recorded, the recorder doubled 32 times) the summand has a distribution
  with count \<open>2 ^ 32\<close> and no non-empty bucket, since its 32-bit bucket has wrapped
  around. The first loop then creates nothing in a new \<open>dest\<close>, which still has no
  distribution for the tag when the second loop reads it, and the merge dereferences
  the null pointer.
\<close>

theorem merge_null_deref:
  "dmtr_record_latency (dmtr_new_latency ''t'') 1 = Inr (0, live ''t'' (pow2_dist 0) [1])
   \<and> double_up 32 (live ''t'' (pow2_dist 0) [1]) = Inr (live ''t'' (pow2_dist 32) [1])
   \<and> reachable (dmtr_new_latency ''d'')
   \<and> reachable (live ''t'' (pow2_dist 32) [1])
   \<and> unat (dcount (distPool (live ''t'' (pow2_dist 32) [1]) ! 0)) = 4294967296
   \<and> dists (live ''t'' (pow2_dist 32) [1]) ! tag_index CHR ''='' = Some 0
   \<and> sum_hist (dmtr_new_latency ''d'') (live ''t'' (pow2_dist 32) [1])
        [0..<distPoolNext (live ''t'' (pow2_dist 32) [1])] = Inr (dmtr_new_latency ''d'')
   \<and> dists (dmtr_new_latency ''d'') ! tag_index CHR ''='' = None
   \<and> Latency_Sum (dmtr_new_latency ''d'') (live ''t'' (pow2_dist 32) [1]) = Inl NullDeref"
proof -
  have reach: "reachable (live ''t'' (pow2_dist 32) [1])"
    by (rule reachable_pow2) simp
  have zero: "\<forall>b<LATENCY_NUM_BUCKETS. buckets (pow2_dist 32) ! b = 0"
    by (simp add: pow2_dist_32_buckets)
  then have "\<forall>b\<in>set [0..<LATENCY_NUM_BUCKETS]. buckets (pow2_dist 32) ! b = 0"
    by simp
  then have first: "sum_hist (dmtr_new_latency ''d'') (live ''t'' (pow2_dist 32) [1])
        [0..<distPoolNext (live ''t'' (pow2_dist 32) [1])] = Inr (dmtr_new_latency ''d'')"
    by (simp add: pool_live sum_hist_buckets_skip)
  have "buckets (pow2_dist 32) ! 64 = 0"
    by (simp add: pow2_dist_32_buckets bucket_list_simps)
  with zero have crash:
    "Latency_Sum (dmtr_new_latency ''d'') (live ''t'' (pow2_dist 32) [1]) = Inl NullDeref"
    by (simp add: Latency_Sum_new_live pow2_dist_fields(5))
  have run: "double_up 32 (live ''t'' (pow2_dist 0) [1]) = Inr (live ''t'' (pow2_dist 32) [1])"
    using double_up_pow2 [of 0 32 "''t''" "[1]"] by simp
  have cnt: "unat (dcount (distPool (live ''t'' (pow2_dist 32) [1]) ! 0)) = 4294967296"
    by (simp add: pool_live pow2_dist_fields)
  show ?thesis
    by (intro conjI record_one run reach_create reach cnt dists_live_eq first dists_new_eq crash)
qed

lemma live_tags:
  assumes "t < LATENCY_MAX_DIST" and "dists (live nm d lat) ! t = Some j"
  shows "t = tag_index CHR ''='' \<and> j = 0"
proof (cases "t = tag_index CHR ''=''")
  case True
  with assms show ?thesis
    by (simp add: dists_live_eq)
next
  case False
  with assms show ?thesis
    by (simp add: dists_live_other)
qed

lemma merge_second_loop_safe_example:
  "dists (live ''t'' (pow2_dist 0) [1]) ! tag_index CHR ''='' = Some 0
   \<and> buckets (distPool (live ''t'' (pow2_dist 0) [1]) ! 0) ! 0 = 1
   \<and> sum_hist (dmtr_new_latency ''d'') (live ''t'' (pow2_dist 0) [1])
        [0..<distPoolNext (live ''t'' (pow2_dist 0) [1])]
      = Inr (live ''d'' (fresh_dist\<lparr>buckets := buckets (pow2_dist 0)\<rparr>) [])
   \<and> dists (live ''d'' (fresh_dist\<lparr>buckets := buckets (pow2_dist 0)\<rparr>) []) ! tag_index CHR ''='' \<noteq> None
   \<and> Latency_Sum (dmtr_new_latency ''d'') (live ''t'' (pow2_dist 0) [1]) \<noteq> Inl NullDeref"
proof -
  let ?s = "live ''t'' (pow2_dist 0) [1]"
  have nz: "buckets (pow2_dist 0) ! 0 \<noteq> 0" "0 < LATENCY_NUM_BUCKETS"
    by (simp_all add: pow2_dist_fields bucket_list_simps LATENCY_NUM_BUCKETS_def)
  have h1: "\<forall>t<LATENCY_MAX_DIST. \<forall>j. dists ?s ! t = Some j \<longrightarrow>
       j < distPoolNext ?s \<and> tag_index (dtype (distPool ?s ! j)) = t
       \<and> (\<exists>b<LATENCY_NUM_BUCKETS. buckets (distPool ?s ! j) ! b \<noteq> 0)"
  proof (intro allI impI)
    fix t j
    assume "t < LATENCY_MAX_DIST" and "dists ?s ! t = Some j"
    then have "t = tag_index CHR ''='' \<and> j = 0"
      by (rule live_tags)
    with nz show "j < distPoolNext ?s \<and> tag_index (dtype (distPool ?s ! j)) = t
       \<and> (\<exists>b<LATENCY_NUM_BUCKETS. buckets (distPool ?s ! j) ! b \<noteq> 0)"
      by (auto simp: pool_live pow2_dist_fields)
  qed
  have merged: "add_buckets fresh_dist (buckets (pow2_dist 0)) [0..<LATENCY_NUM_BUCKETS]
          = fresh_dist\<lparr>buckets := buckets (pow2_dist 0)\<rparr>"
    by (rule dist_eqI)
      (simp_all add: add_buckets_fields add_buckets_all fresh_dist_fields pow2_dist_fields
        map2_add_zero)
  have last: "buckets (pow2_dist 0) ! 64 = 0"
    by (simp add: pow2_dist_fields bucket_list_simps)
  have "\<not> (\<forall>b\<in>set [0..<LATENCY_NUM_BUCKETS]. buckets (pow2_dist 0) ! b = 0)"
    using nz by auto
  with sum_hist_buckets_new [OF pow2_dist_fields(5) last_bucket_only [OF last], where nm = "''d''"]
  have "sum_hist_buckets (dmtr_new_latency ''d'') (pow2_dist 0) [0..<LATENCY_NUM_BUCKETS]
      = Inr (live ''d'' (fresh_dist\<lparr>buckets := buckets (pow2_dist 0)\<rparr>) [])"
    by (simp only: merged if_False)
  then have h2: "sum_hist (dmtr_new_latency ''d'') ?s [0..<distPoolNext ?s]
      = Inr (live ''d'' (fresh_dist\<lparr>buckets := buckets (pow2_dist 0)\<rparr>) [])"
    by (simp add: pool_live)
  have present: "dists (live ''d'' (fresh_dist\<lparr>buckets := buckets (pow2_dist 0)\<rparr>) [])
      ! tag_index CHR ''='' \<noteq> None"
    by (simp add: dists_live_eq)
  from merge_second_loop_safe [OF h1 h2]
  have "Latency_Sum (dmtr_new_latency ''d'') ?s \<noteq> Inl NullDeref"
    by blast
  moreover have "buckets (distPool ?s ! 0) ! 0 = 1"
    by (simp add: pool_live pow2_dist_fields bucket_list_simps)
  ultimately show ?thesis
    using h2 present by (simp add: dists_live_eq)
qed


lemma shape_tag:
  assumes "shape l" and "t < LATENCY_MAX_DIST" and "dists l ! t = Some i"
  obtains nm d lat where "l = live nm d lat" "good_dist d" "t = tag_index CHR ''=''" "i = 0"
proof -
  from assms(1) consider nm where "l = dmtr_new_latency nm"
    | nm d lat where "l = live nm d lat" "good_dist d"
    by (auto simp: shape_def)
  then show ?thesis
  proof cases
    case 1
    with assms(2,3) show ?thesis
      by (simp add: dists_new_nth)
  next
    case 2
    with assms(2,3) live_tags [of t nm d lat i] that show ?thesis
      by simp
  qed
qed

lemma unat_sum64:
  "unat (a :: 64 word) + unat b < 2 ^ 64 \<Longrightarrow> unat (a + b) = unat a + unat b"
  by (simp add: unat_add_lem [THEN iffD1])

lemma unat_sum32:
  "unat (a :: 32 word) + unat b < 2 ^ 32 \<Longrightarrow> unat (a + b) = unat a + unat b"
  by (simp add: unat_add_lem [THEN iffD1])

lemma high_dist_fields:
  "dmin (high_dist v) = v" "dmax (high_dist v) = v" "dtotal (high_dist v) = v"
  "dcount (high_dist v) = 1" "dtype (high_dist v) = CHR ''=''"
  "buckets (high_dist v) = (replicate LATENCY_NUM_BUCKETS 0)[63 := 1]"
  by (simp_all add: high_dist_def)

lemma bucket_of_high:
  "bucket_of 9223372036854775808 = 63" "bucket_of 9223372036854775809 = 63"
  by (rule bucket_of_eqI; simp)+

lemma one_high_sample:
  "add_sample v (add_weight 63 1 fresh_dist) = high_dist v"
  by (intro dist_eqI)
    (simp_all add: add_sample_fields add_weight_fields fresh_dist_fields high_dist_fields
      add_weight_def LATENCY_NUM_BUCKETS_def)

lemma record_high:
  assumes "bucket_of v = 63" and "v \<noteq> 0"
  shows "dmtr_record_latency (dmtr_new_latency nm) v = Inr (0, live nm (high_dist v) [v])"
  using assms by (simp add: record_new one_high_sample)

lemma map2_add_at:
  "map2 (+) ((replicate n 0)[i := x]) ((replicate n 0)[i := y]) = (replicate n (0 :: 32 word))[i := x + y]"
proof (rule nth_equalityI)
  show "length (map2 (+) ((replicate n 0)[i := x]) ((replicate n 0)[i := y]))
      = length ((replicate n (0 :: 32 word))[i := x + y])"
    by simp
next
  fix k
  assume "k < length (map2 (+) ((replicate n 0)[i := x]) ((replicate n 0)[i := y]))"
  then have "k < n"
    by simp
  then show "map2 (+) ((replicate n 0)[i := x]) ((replicate n 0)[i := y]) ! k
      = (replicate n (0 :: 32 word))[i := x + y] ! k"
    by (cases "k = i") simp_all
qed

lemma merge_high:
  "Latency_Sum (live ''a'' (high_dist 9223372036854775808) [9223372036854775808])
      (live ''b'' (high_dist 9223372036854775809) [9223372036854775809])
    = Inr (live ''a'' wrapped_dist [9223372036854775808])"
proof -
  have "merge_stats (high_dist 9223372036854775809)
          (add_buckets (high_dist 9223372036854775808) (buckets (high_dist 9223372036854775809))
             [0..<LATENCY_NUM_BUCKETS])
        = wrapped_dist"
    by (rule dist_eqI)
      (simp_all add: merge_stats_fields add_buckets_fields add_buckets_all high_dist_fields
        wrapped_dist_def map2_add_at)
  then show ?thesis
    by (simp add: Latency_Sum_live_live high_dist_fields bucket_list_simps)
qed

lemma reachable_pow2_any: "reachable (live nm (pow2_dist k) [1])"
proof (induction k)
  case 0
  show ?case
    using reach_create record_one by (rule reach_record)
next
  case (Suc k)
  from Suc Suc add_pow2 show ?case
    by (rule reach_merge)
qed


lemma unat_mod64: "unat (a + b :: 64 word) = (unat a + unat b) mod 2 ^ 64"
  by (simp add: unat_word_ariths)

lemma unat_mod32: "unat (a + b :: 32 word) = (unat a + unat b) mod 2 ^ 32"
  by (simp add: unat_word_ariths)

text \<open>
  C3, as amended. For two reachable recorders (in particular two recorders built by
  recording) and every tag that has a distribution in both, \<^verbatim>\<open>Latency_Sum\<close> returns, and
  the distribution of the tag in \<open>dest\<close> then has as min the smaller min and as max the
  larger max; its count and its total are the sums of the two counts and of the two
  totals modulo \<open>2 ^ 64\<close> (the fields are \<^verbatim>\<open>uint64_t\<close>), and each of its 65 buckets is
  the sum of the two bucket counts modulo \<open>2 ^ 32\<close> (the buckets are \<^verbatim>\<open>uint32_t\<close>).
  Each of them is the sum itself whenever this sum is below \<open>2 ^ 64\<close>, for a bucket
  below \<open>2 ^ 32\<close>.
\<close>

theorem merge_adds_distributions:
  assumes "reachable dest" and "reachable summand"
    and "tag_index ty < LATENCY_MAX_DIST"
    and "dists dest ! tag_index ty = Some i" and "dists summand ! tag_index ty = Some j"
  shows "\<exists>dest'. Latency_Sum dest summand = Inr dest'
    \<and> dists dest' ! tag_index ty = Some i
    \<and> dcount (distPool dest' ! i) = dcount (distPool dest ! i) + dcount (distPool summand ! j)
    \<and> dmin (distPool dest' ! i) = min (dmin (distPool dest ! i)) (dmin (distPool summand ! j))
    \<and> dmax (distPool dest' ! i) = max (dmax (distPool dest ! i)) (dmax (distPool summand ! j))
    \<and> dtotal (distPool dest' ! i) = dtotal (distPool dest ! i) + dtotal (distPool summand ! j)
    \<and> (\<forall>b<LATENCY_NUM_BUCKETS. buckets (distPool dest' ! i) ! b
          = buckets (distPool dest ! i) ! b + buckets (distPool summand ! j) ! b)
    \<and> unat (dcount (distPool dest' ! i))
          = (unat (dcount (distPool dest ! i)) + unat (dcount (distPool summand ! j))) mod 2 ^ 64
    \<and> unat (dtotal (distPool dest' ! i))
          = (unat (dtotal (distPool dest ! i)) + unat (dtotal (distPool summand ! j))) mod 2 ^ 64
    \<and> (\<forall>b<LATENCY_NUM_BUCKETS. unat (buckets (distPool dest' ! i) ! b)
          = (unat (buckets (distPool dest ! i) ! b) + unat (buckets (distPool summand ! j) ! b)) mod 2 ^ 32)
    \<and> (unat (dcount (distPool dest ! i)) + unat (dcount (distPool summand ! j)) < 2 ^ 64 \<longrightarrow>
          unat (dcount (distPool dest' ! i))
            = unat (dcount (distPool dest ! i)) + unat (dcount (distPool summand ! j)))
    \<and> (unat (dtotal (distPool dest ! i)) + unat (dtotal (distPool summand ! j)) < 2 ^ 64 \<longrightarrow>
          unat (dtotal (distPool dest' ! i))
            = unat (dtotal (distPool dest ! i)) + unat (dtotal (distPool summand ! j)))
    \<and> (\<forall>b<LATENCY_NUM_BUCKETS.
          unat (buckets (distPool dest ! i) ! b) + unat (buckets (distPool summand ! j) ! b) < 2 ^ 32 \<longrightarrow>
          unat (buckets (distPool dest' ! i) ! b)
            = unat (buckets (distPool dest ! i) ! b) + unat (buckets (distPool summand ! j) ! b))"
proof -
  from reachable_shape [OF assms(1)] assms(3,4)
  obtain nm d lat where dest: "dest = live nm d lat" "good_dist d"
    and t: "tag_index ty = tag_index CHR ''=''" and i: "i = 0"
    by (rule shape_tag)
  from reachable_shape [OF assms(2)] assms(3,5)
  obtain nm' ds lat' where summand: "summand = live nm' ds lat'" "good_dist ds" and j: "j = 0"
    by (rule shape_tag)
  let ?m = "merge_stats ds (add_buckets d (buckets ds) [0..<LATENCY_NUM_BUCKETS])"
  have ds: "dtype ds = CHR ''=''" "buckets ds ! 64 = 0"
    using summand(2) by (simp_all add: good_dist_def)
  have len: "length (buckets d) = LATENCY_NUM_BUCKETS" "length (buckets ds) = LATENCY_NUM_BUCKETS"
    using dest(2) summand(2) by (simp_all add: good_dist_def)
  have sum: "Latency_Sum dest summand = Inr (live nm ?m lat)"
    by (simp add: dest(1) summand(1) Latency_Sum_live_live [OF ds])
  have b: "buckets ?m = map2 (+) (buckets d) (buckets ds)"
    using len by (simp add: merge_stats_fields add_buckets_all)
  have bs: "\<forall>b<LATENCY_NUM_BUCKETS. buckets ?m ! b = buckets d ! b + buckets ds ! b"
    using len by (simp add: b)
  have pools: "distPool (live nm ?m lat) ! i = ?m" "distPool dest ! i = d"
    "distPool summand ! j = ds"
    by (simp_all add: dest(1) summand(1) i j pool_live)
  have tag: "dists (live nm ?m lat) ! tag_index ty = Some i"
    by (simp add: t i dists_live_eq)
  from bs have "\<forall>b<LATENCY_NUM_BUCKETS.
      buckets (add_buckets d (buckets ds) [0..<LATENCY_NUM_BUCKETS]) ! b
        = buckets d ! b + buckets ds ! b"
    by (simp add: merge_stats_fields)
  then show ?thesis
    unfolding sum pools
    by (intro exI [of _ "live nm ?m lat"] conjI refl tag)
      (simp_all add: pools merge_stats_fields add_buckets_fields unat_sum64 unat_sum32
        unat_mod64 unat_mod32)
qed


text \<open>
  The claim C3 as stated fails where a sum does not fit its field. Two recorders are
  built by recording the one sample \<open>2 ^ 63\<close> and the one sample \<open>2 ^ 63 + 1\<close>: the merged
  total is 1 and not \<open>2 ^ 64 + 1\<close>. Two recorders that hold \<open>2 ^ 31\<close> samples of 1 ns
  each merge to a bucket that reads 0 and not \<open>2 ^ 32\<close>, and two recorders with the
  count \<open>2 ^ 63\<close> merge to the count 0.
\<close>

lemma add_pow2_buckets:
  "unat (buckets (pow2_dist 31) ! 0) + unat (buckets (pow2_dist 31) ! 0) = 4294967296"
  "unat (buckets (pow2_dist 32) ! 0) = 0"
  by (simp_all add: pow2_dist_fields bucket_list_simps)

lemma add_pow2_counts:
  "unat (dcount (pow2_dist 63)) + unat (dcount (pow2_dist 63)) = 18446744073709551616"
  "unat (dcount (pow2_dist 64)) = 0"
  by (simp_all add: pow2_dist_fields)

lemma high_totals:
  "unat (dtotal (high_dist 9223372036854775808)) + unat (dtotal (high_dist 9223372036854775809))
     = 18446744073709551617"
  "unat (dtotal wrapped_dist) = 1"
  by (simp_all add: high_dist_fields wrapped_dist_def)

theorem merge_sums_wrap_counterexample:
  "dmtr_record_latency (dmtr_new_latency ''a'') 9223372036854775808
      = Inr (0, live ''a'' (high_dist 9223372036854775808) [9223372036854775808])
   \<and> dmtr_record_latency (dmtr_new_latency ''b'') 9223372036854775809
      = Inr (0, live ''b'' (high_dist 9223372036854775809) [9223372036854775809])
   \<and> Latency_Sum (live ''a'' (high_dist 9223372036854775808) [9223372036854775808])
        (live ''b'' (high_dist 9223372036854775809) [9223372036854775809])
      = Inr (live ''a'' wrapped_dist [9223372036854775808])
   \<and> dists (live ''a'' wrapped_dist [9223372036854775808]) ! tag_index CHR ''='' = Some 0
   \<and> distPool (live ''a'' wrapped_dist [9223372036854775808]) ! 0 = wrapped_dist
   \<and> unat (dtotal (high_dist 9223372036854775808)) + unat (dtotal (high_dist 9223372036854775809))
      = 18446744073709551617
   \<and> unat (dtotal wrapped_dist) = 1
   \<and> reachable (live ''a'' (pow2_dist 31) [1]) \<and> reachable (live ''b'' (pow2_dist 31) [1])
   \<and> Latency_Sum (live ''a'' (pow2_dist 31) [1]) (live ''b'' (pow2_dist 31) [1])
      = Inr (live ''a'' (pow2_dist 32) [1])
   \<and> unat (buckets (pow2_dist 31) ! 0) + unat (buckets (pow2_dist 31) ! 0) = 4294967296
   \<and> unat (buckets (pow2_dist 32) ! 0) = 0
   \<and> reachable (live ''a'' (pow2_dist 63) [1]) \<and> reachable (live ''b'' (pow2_dist 63) [1])
   \<and> Latency_Sum (live ''a'' (pow2_dist 63) [1]) (live ''b'' (pow2_dist 63) [1])
      = Inr (live ''a'' (pow2_dist 64) [1])
   \<and> unat (dcount (pow2_dist 63)) + unat (dcount (pow2_dist 63)) = 18446744073709551616
   \<and> unat (dcount (pow2_dist 64)) = 0"
proof -
  have bucket: "Latency_Sum (live ''a'' (pow2_dist 31) [1]) (live ''b'' (pow2_dist 31) [1])
      = Inr (live ''a'' (pow2_dist 32) [1])"
    using add_pow2 [of "''a''" 31 "[1]" "''b''" "[1]"] by simp
  have count: "Latency_Sum (live ''a'' (pow2_dist 63) [1]) (live ''b'' (pow2_dist 63) [1])
      = Inr (live ''a'' (pow2_dist 64) [1])"
    using add_pow2 [of "''a''" 63 "[1]" "''b''" "[1]"] by simp
  have nz: "(9223372036854775808 :: 64 word) \<noteq> 0" "(9223372036854775809 :: 64 word) \<noteq> 0"
    by simp_all
  show ?thesis
    by (intro conjI record_high bucket_of_high nz merge_high dists_live_eq pool_live high_totals
        reachable_pow2_any bucket count add_pow2_buckets add_pow2_counts)
qed

theorem merge_adds_distributions_witness:
  "record_all (dmtr_new_latency ''a'') [5] = Inr (live ''a'' (add_sample 5 (add_weight 2 1 fresh_dist)) [5])
   \<and> record_all (dmtr_new_latency ''b'') [10] = Inr (live ''b'' (add_sample 10 (add_weight 3 1 fresh_dist)) [10])
   \<and> reachable (live ''a'' (add_sample 5 (add_weight 2 1 fresh_dist)) [5])
   \<and> reachable (live ''b'' (add_sample 10 (add_weight 3 1 fresh_dist)) [10])
   \<and> (\<exists>dest'. Latency_Sum (live ''a'' (add_sample 5 (add_weight 2 1 fresh_dist)) [5])
                 (live ''b'' (add_sample 10 (add_weight 3 1 fresh_dist)) [10]) = Inr dest'
        \<and> dists dest' ! tag_index CHR ''='' = Some 0
        \<and> dcount (distPool dest' ! 0) = 2 \<and> dmin (distPool dest' ! 0) = 5
        \<and> dmax (distPool dest' ! 0) = 10 \<and> dtotal (distPool dest' ! 0) = 15
        \<and> buckets (distPool dest' ! 0) ! 2 = 1 \<and> buckets (distPool dest' ! 0) ! 3 = 1)"
proof -
  let ?a = "live ''a'' (add_sample 5 (add_weight 2 1 fresh_dist)) [5]"
  let ?b = "live ''b'' (add_sample 10 (add_weight 3 1 fresh_dist)) [10]"
  have b3: "bucket_of 5 = 2" and b10: "bucket_of 10 = 3"
    by (rule bucket_of_eqI; simp)+
  have ra: "dmtr_record_latency (dmtr_new_latency ''a'') 5 = Inr (0, ?a)"
    using record_new [of 5 "''a''"] by (simp add: b3)
  have rb: "dmtr_record_latency (dmtr_new_latency ''b'') 10 = Inr (0, ?b)"
    using record_new [of 10 "''b''"] by (simp add: b10)
  have reach_a: "reachable ?a"
    using reach_create ra by (rule reach_record)
  have reach_b: "reachable ?b"
    using reach_create rb by (rule reach_record)
  have stats:
    "dcount (distPool ?a ! 0) = 1" "dcount (distPool ?b ! 0) = 1"
    "dmin (distPool ?a ! 0) = 5" "dmin (distPool ?b ! 0) = 10"
    "dmax (distPool ?a ! 0) = 5" "dmax (distPool ?b ! 0) = 10"
    "dtotal (distPool ?a ! 0) = 5" "dtotal (distPool ?b ! 0) = 10"
    by (simp_all add: pool_live add_sample_fields add_weight_fields fresh_dist_fields)
  have bkts:
    "buckets (distPool ?a ! 0) ! 2 = 1" "buckets (distPool ?b ! 0) ! 2 = 0"
    "buckets (distPool ?a ! 0) ! 3 = 0" "buckets (distPool ?b ! 0) ! 3 = 1"
    by (simp_all add: pool_live add_sample_fields add_weight_def fresh_dist_fields
        LATENCY_NUM_BUCKETS_def)
  from merge_adds_distributions [OF reach_a reach_b eq_tag_lt dists_live_eq dists_live_eq]
  obtain dest' where d: "Latency_Sum ?a ?b = Inr dest'" "dists dest' ! tag_index CHR ''='' = Some 0"
    "dcount (distPool dest' ! 0) = dcount (distPool ?a ! 0) + dcount (distPool ?b ! 0)"
    "dmin (distPool dest' ! 0) = min (dmin (distPool ?a ! 0)) (dmin (distPool ?b ! 0))"
    "dmax (distPool dest' ! 0) = max (dmax (distPool ?a ! 0)) (dmax (distPool ?b ! 0))"
    "dtotal (distPool dest' ! 0) = dtotal (distPool ?a ! 0) + dtotal (distPool ?b ! 0)"
    "\<forall>b<LATENCY_NUM_BUCKETS. buckets (distPool dest' ! 0) ! b
          = buckets (distPool ?a ! 0) ! b + buckets (distPool ?b ! 0) ! b"
    by blast
  have "(2 :: nat) < LATENCY_NUM_BUCKETS" "(3 :: nat) < LATENCY_NUM_BUCKETS"
    by (simp_all add: LATENCY_NUM_BUCKETS_def)
  with d(7) have
    "buckets (distPool dest' ! 0) ! 2 = buckets (distPool ?a ! 0) ! 2 + buckets (distPool ?b ! 0) ! 2"
    "buckets (distPool dest' ! 0) ! 3 = buckets (distPool ?a ! 0) ! 3 + buckets (distPool ?b ! 0) ! 3"
    by blast+
  then have "buckets (distPool dest' ! 0) ! 2 = 1" "buckets (distPool dest' ! 0) ! 3 = 1"
    by (simp_all only: bkts add_0_right add_0_left)
  moreover have "dcount (distPool dest' ! 0) = 2" "dmin (distPool dest' ! 0) = 5"
    "dmax (distPool dest' ! 0) = 10" "dtotal (distPool dest' ! 0) = 15"
    by (simp_all add: d stats)
  moreover have "record_all (dmtr_new_latency ''a'') [5] = Inr ?a"
    "record_all (dmtr_new_latency ''b'') [10] = Inr ?b"
    by (simp_all add: ra rb)
  ultimately show ?thesis
    using reach_a reach_b d(1,2) by blast
qed

subsection \<open>The histogram\<close>

lemma hist_loop_empty_bucket:
  "bucket_total l lc chain i = 0 \<Longrightarrow> hist_loop l lc chain (i # is) lp = hist_loop l lc chain is lp"
  by (cases "bar_loop l i lc chain 0 []") (simp add: bucket_total_def)

lemma hist_loop_printed_bucket:
  "bucket_total l lc chain i \<noteq> 0 \<Longrightarrow> i < 64 \<Longrightarrow>
   hist_loop l lc chain (i # is) lp =
     (case hist_loop l lc chain is i of
        Inl e \<Rightarrow> Inl e
      | Inr rest \<Rightarrow>
          Inr (gap_rows lp i @ bucket_row i (bucket_total l lc chain i) (bucket_bar l lc chain i) # rest))"
  by (cases "bar_loop l i lc chain 0 []")
    (simp add: bucket_total_def bucket_bar_def word_gt_0 split: sum.splits)

lemma hist_loop_skip:
  "\<forall>k\<in>set ks. bucket_total l lc chain k = 0 \<Longrightarrow>
   hist_loop l lc chain (ks @ is) lp = hist_loop l lc chain is lp"
  by (induction ks) (simp_all add: hist_loop_empty_bucket del: hist_loop.simps)

lemma upt_split_at:
  assumes "lo \<le> i" and "i < n"
  shows "[lo..<n] = [lo..<i] @ i # [Suc i..<n]"
proof -
  have "[lo..<i + (n - i)] = [lo..<i] @ [i..<i + (n - i)]"
    using assms(1) by (rule upt_add_eq_append)
  moreover have "i + (n - i) = n"
    using assms by simp
  ultimately have "[lo..<n] = [lo..<i] @ [i..<n]"
    by simp
  then show ?thesis
    using assms by (simp add: upt_conv_Cons)
qed

lemma hist_loop_next:
  assumes "lo \<le> i" and "i < 64"
    and "\<forall>k. lo \<le> k \<and> k < i \<longrightarrow> bucket_total l lc chain k = 0"
    and "bucket_total l lc chain i \<noteq> 0"
  shows "hist_loop l lc chain [lo..<LATENCY_NUM_BUCKETS] lp =
     (case hist_loop l lc chain [Suc i..<LATENCY_NUM_BUCKETS] i of
        Inl e \<Rightarrow> Inl e
      | Inr rest \<Rightarrow>
          Inr (gap_rows lp i @ bucket_row i (bucket_total l lc chain i) (bucket_bar l lc chain i) # rest))"
proof -
  have "i < LATENCY_NUM_BUCKETS"
    using assms(2) by (simp add: LATENCY_NUM_BUCKETS_def)
  with assms(1) have split: "[lo..<LATENCY_NUM_BUCKETS] = [lo..<i] @ i # [Suc i..<LATENCY_NUM_BUCKETS]"
    by (rule upt_split_at)
  have zero: "\<forall>k\<in>set [lo..<i]. bucket_total l lc chain k = 0"
    using assms(3) by simp
  have "hist_loop l lc chain [lo..<LATENCY_NUM_BUCKETS] lp
      = hist_loop l lc chain (i # [Suc i..<LATENCY_NUM_BUCKETS]) lp"
    by (simp only: split hist_loop_skip [OF zero])
  also have "\<dots> = (case hist_loop l lc chain [Suc i..<LATENCY_NUM_BUCKETS] i of
        Inl e \<Rightarrow> Inl e
      | Inr rest \<Rightarrow>
          Inr (gap_rows lp i @ bucket_row i (bucket_total l lc chain i) (bucket_bar l lc chain i) # rest))"
    using assms(4,2) by (rule hist_loop_printed_bucket)
  finally show ?thesis .
qed

lemma hist_loop_end:
  assumes "\<forall>k. lo \<le> k \<and> k < LATENCY_NUM_BUCKETS \<longrightarrow> bucket_total l lc chain k = 0"
  shows "hist_loop l lc chain [lo..<LATENCY_NUM_BUCKETS] lp = Inr []"
proof -
  have "\<forall>k\<in>set [lo..<LATENCY_NUM_BUCKETS]. bucket_total l lc chain k = 0"
    using assms by simp
  from hist_loop_skip [OF this, of "[]" lp] show ?thesis
    by simp
qed

lemma gap_rows_short: "j < i \<Longrightarrow> i - j - 1 \<le> 2 \<Longrightarrow> gap_rows j i = map zero_row [Suc j..<i]"
  by (simp add: gap_rows_def) 

lemma gap_rows_long: "j < i \<Longrightarrow> 3 \<le> i - j - 1 \<Longrightarrow> gap_rows j i = [dots_row]"
  by (simp add: gap_rows_def)

text \<open>
  C8, as amended. In the display loop, let \<open>j < i\<close> be two non-empty buckets with only
  empty buckets between them. After the row of \<open>j\<close>, the run of empty buckets is printed
  as one zero row per bucket when it has at most 2 buckets, and as a single \<^verbatim>\<open>...\<close> row
  when it has 3 buckets or more; the row of \<open>i\<close> follows.
\<close>

theorem zero_run_rows:
  assumes "j < i" and "i < 64"
    and "bucket_total l lc chain j \<noteq> 0"
    and "\<forall>k. j < k \<and> k < i \<longrightarrow> bucket_total l lc chain k = 0"
    and "bucket_total l lc chain i \<noteq> 0"
  shows "hist_loop l lc chain [j..<LATENCY_NUM_BUCKETS] lp =
     (case hist_loop l lc chain [Suc i..<LATENCY_NUM_BUCKETS] i of
        Inl e \<Rightarrow> Inl e
      | Inr rest \<Rightarrow>
          Inr (gap_rows lp j
               @ bucket_row j (bucket_total l lc chain j) (bucket_bar l lc chain j)
               # (if i - j - 1 \<le> 2 then map zero_row [Suc j..<i] else [dots_row])
               @ bucket_row i (bucket_total l lc chain i) (bucket_bar l lc chain i) # rest))"
proof -
  have j: "j < 64"
    using assms(1,2) by simp
  have first: "hist_loop l lc chain [j..<LATENCY_NUM_BUCKETS] lp =
     (case hist_loop l lc chain [Suc j..<LATENCY_NUM_BUCKETS] j of
        Inl e \<Rightarrow> Inl e
      | Inr rest \<Rightarrow>
          Inr (gap_rows lp j @ bucket_row j (bucket_total l lc chain j) (bucket_bar l lc chain j) # rest))"
    using j assms(3) by (intro hist_loop_next) auto
  have second: "hist_loop l lc chain [Suc j..<LATENCY_NUM_BUCKETS] j =
     (case hist_loop l lc chain [Suc i..<LATENCY_NUM_BUCKETS] i of
        Inl e \<Rightarrow> Inl e
      | Inr rest \<Rightarrow>
          Inr (gap_rows j i @ bucket_row i (bucket_total l lc chain i) (bucket_bar l lc chain i) # rest))"
    using assms by (intro hist_loop_next) auto
  have gap: "gap_rows j i = (if i - j - 1 \<le> 2 then map zero_row [Suc j..<i] else [dots_row])"
    using assms(1) by (simp add: gap_rows_short gap_rows_long)
  show ?thesis
    by (simp add: first second gap split: sum.splits)
qed


subsection \<open>The report of a recorder with the one tag\<close>

lemma summary_loop_none:
  "\<forall>t\<in>set ts. dists l ! t = None \<Longrightarrow> summary_loop l ts = Inr ([], [])"
  by (induction ts) simp_all

lemma summary_loop_skip:
  "\<forall>t\<in>set ts. dists l ! t = None \<Longrightarrow> summary_loop l (ts @ us) = summary_loop l us"
  by (induction ts) simp_all

lemma summary_loop_live:
  "summary_loop (live nm d lat) [0..<LATENCY_MAX_DIST] =
     (case summary_line nm (tag_index CHR ''='') d of
        Inl e \<Rightarrow> Inl e
      | Inr line \<Rightarrow> Inr ([tag_index CHR ''=''], [line]))"
proof -
  let ?l = "live nm d lat" and ?t = "tag_index CHR ''=''"
  have before: "\<forall>t\<in>set [0..<?t]. dists ?l ! t = None"
    using eq_tag_lt by (simp add: dists_live_other)
  have after: "summary_loop ?l [Suc ?t..<LATENCY_MAX_DIST] = Inr ([], [])"
    by (rule summary_loop_none) (simp add: dists_live_other)
  have nm: "name ?l = nm"
    by (simp add: live_def)
  show ?thesis
    by (simp only: upt_split [OF eq_tag_lt] summary_loop_skip [OF before])
      (simp add: dists_live_eq pool_live after nm split: sum.splits)
qed

lemma pool_total_live:
  "pool_total (take (distPoolNext (live nm d lat)) (distPool (live nm d lat))) i 0
     = ucast (buckets d ! i)"
  by (simp add: live_def)

lemma largest_loop_live:
  "\<forall>i\<in>set is. (ucast (buckets d ! i) :: 64 word) \<le> lc \<Longrightarrow>
   largest_loop (live nm d lat) is lc = lc"
proof (induction "is")
  case Nil
  show ?case by simp
next
  case (Cons i "is")
  then have "\<not> (ucast (buckets d ! i) :: 64 word) > lc"
    by (simp add: not_less)
  with Cons show ?case
    by (simp add: pool_total_live Let_def)
qed

lemma char_of_eq_tag: "char_of (tag_index CHR ''='') = CHR ''=''"
  by (simp only: tag_index_def char_of_char)

lemma bar_loop_live:
  "bar_loop (live nm d lat) i lc [tag_index CHR ''=''] 0 [] =
     (ucast (buckets d ! i),
      replicate (unat ((ucast (buckets d ! i) * of_nat LATENCY_HISTOGRAM_WIDTH) div lc)) CHR ''='')"
  by (simp add: dists_live_eq pool_live char_of_eq_tag Let_def)

lemma bucket_total_live:
  "bucket_total (live nm d lat) lc [tag_index CHR ''=''] i = ucast (buckets d ! i)"
  by (simp only: bucket_total_def bar_loop_live fst_conv)

lemma bucket_bar_live:
  "bucket_bar (live nm d lat) lc [tag_index CHR ''=''] i =
     replicate (unat ((ucast (buckets d ! i) * of_nat LATENCY_HISTOGRAM_WIDTH) div lc)) CHR ''=''"
  by (simp only: bucket_bar_def bar_loop_live snd_conv)

lemma live_sorted: "(live nm d lat)\<lparr>latencies := sort lat\<rparr> = live nm d (sort lat)"
  by (simp add: live_def)

lemma Latency_Dump_live:
  "Latency_Dump (live nm d lat) =
     (case summary_line nm (tag_index CHR ''='') d of
        Inl e \<Rightarrow> Inl e
      | Inr line \<Rightarrow>
          (case tail_line (sort lat) of
             Inl e \<Rightarrow> Inl e
           | Inr tail \<Rightarrow>
               (case hist_loop (live nm d (sort lat))
                       (largest_loop (live nm d (sort lat)) [0..<LATENCY_NUM_BUCKETS]
                          (of_nat LATENCY_HISTOGRAM_WIDTH))
                       [tag_index CHR ''=''] [0..<LATENCY_NUM_BUCKETS] LATENCY_NUM_BUCKETS of
                  Inl e \<Rightarrow> Inl e
                | Inr rows \<Rightarrow> Inr (0, line # tail # rows, live nm d (sort lat)))))"
proof -
  have lat: "latencies (live nm d lat) = lat" "latencies (live nm d (sort lat)) = sort lat"
    by (simp_all add: live_def)
  show ?thesis
    by (simp add: Latency_Dump_def pool_live summary_loop_live live_sorted lat Let_def
        split: sum.splits)
qed


subsection \<open>Three reports\<close>

lemmas fmt_simps = LatencyFmtNS_def fmt_loop.simps show_nat.simps units_def digit_char_def
  word_le_nat_alt

lemma unat_minus_1_64: "unat (- 1 :: 64 word) = 18446744073709551615"
  by (simp add: unsigned_minus_1_eq_mask mask_eq_exp_minus_1)

lemma bucket_of_values:
  "bucket_of 1 = 0" "bucket_of 2 = 1" "bucket_of 4 = 2" "bucket_of 1000 = 9"
  "bucket_of 1000000 = 19" "bucket_of 16 = 4"
  by (rule bucket_of_eqI; simp)+

lemma push_sample_small: "length lat < 1000000 \<Longrightarrow> push_sample v lat = lat @ [v]"
  by (simp add: push_sample_def MAX_ITERATIONS_def)

lemma five_dist_eq:
  "add_sample 1000000 (add_weight 19 1 (add_sample 1000 (add_weight 9 1
     (add_sample 4 (add_weight 2 1 (add_sample 2 (add_weight (Suc 0) 1
       (add_sample 1 (add_weight 0 1 fresh_dist))))))))) = five_dist"
  by (rule dist_eqI)
    (simp_all add: add_sample_fields add_weight_fields fresh_dist_fields five_dist_def
      add_weight_def LATENCY_NUM_BUCKETS_def min_def max_def word_le_nat_alt word_less_nat_alt
      unat_minus_1_64)

lemma record_five:
  "record_all (dmtr_new_latency ''t'') [1, 2, 4, 1000, 1000000]
     = Inr (live ''t'' five_dist [1, 2, 4, 1000, 1000000])"
  by (simp add: record_new record_live bucket_of_values push_sample_small five_dist_eq)


lemma five_summary:
  "summary_line ''t'' (tag_index CHR ''='') five_dist
     = Inr ''LATENCY t: 1 ns 200 us/2 ns 1000 us (5 samples, 1001 us total)''"
  by (simp add: summary_line_def five_dist_def LATENCY_NUM_BUCKETS_def upt_rec [of 0]
      upt_rec [of "Suc _"] Let_def fmt_simps)


lemma ucast_up_eq_0: "(ucast (x :: 32 word) :: 64 word) = 0 \<longleftrightarrow> x = 0"
proof -
  have "unat x < 2 ^ 32"
    using unsigned_less [of x, where ?'a = nat] by simp
  then have "unat x < 18446744073709551616"
    by simp
  then have "unat (ucast x :: 64 word) = unat x"
    by (simp add: unsigned_ucast_eq take_bit_eq_mod)
  then show ?thesis
    by (metis unat_eq_0)
qed

lemma hist_loop_live_next:
  assumes "lo \<le> i" and "i < 64"
    and "\<forall>k. lo \<le> k \<and> k < i \<longrightarrow> buckets d ! k = 0"
    and "buckets d ! i \<noteq> 0"
  shows "hist_loop (live nm d lat) lc [tag_index CHR ''=''] [lo..<LATENCY_NUM_BUCKETS] lp =
     (case hist_loop (live nm d lat) lc [tag_index CHR ''=''] [Suc i..<LATENCY_NUM_BUCKETS] i of
        Inl e \<Rightarrow> Inl e
      | Inr rest \<Rightarrow>
          Inr (gap_rows lp i
               @ bucket_row i (ucast (buckets d ! i))
                   (replicate (unat ((ucast (buckets d ! i) * of_nat LATENCY_HISTOGRAM_WIDTH) div lc))
                      CHR ''='')
               # rest))"
  using hist_loop_next [of lo i "live nm d lat" lc "[tag_index CHR ''='']" lp] assms
  by (simp add: bucket_total_live bucket_bar_live ucast_up_eq_0 cong: sum.case_cong)

lemma hist_loop_live_end:
  assumes "\<forall>k. lo \<le> k \<and> k < LATENCY_NUM_BUCKETS \<longrightarrow> buckets d ! k = 0"
  shows "hist_loop (live nm d lat) lc [tag_index CHR ''=''] [lo..<LATENCY_NUM_BUCKETS] lp = Inr []"
  using assms by (intro hist_loop_end) (simp add: bucket_total_live)

lemma five_buckets:
  "i < LATENCY_NUM_BUCKETS \<Longrightarrow>
   buckets five_dist ! i = (if i = 0 \<or> i = 1 \<or> i = 2 \<or> i = 9 \<or> i = 19 then 1 else 0)"
  by (simp add: five_dist_def nth_list_update)

lemma five_largest:
  "largest_loop (live ''t'' five_dist lat) [0..<LATENCY_NUM_BUCKETS] (of_nat LATENCY_HISTOGRAM_WIDTH)
     = 50"
proof -
  have "\<forall>i\<in>set [0..<LATENCY_NUM_BUCKETS]. (ucast (buckets five_dist ! i) :: 64 word) \<le> 50"
    by (simp add: five_buckets)
  then show ?thesis
    by (simp add: largest_loop_live LATENCY_HISTOGRAM_WIDTH_def)
qed

lemma row_simps:
  "bucket_row 0 1 ''='' = ''      1 ns |          1 | =''"
  "bucket_row 1 1 ''='' = ''      2 ns |          1 | =''"
  "bucket_row 2 1 ''='' = ''      4 ns |          1 | =''"
  "bucket_row 4 1 ''='' = ''     16 ns |          1 | =''"
  "bucket_row 9 1 ''='' = ''    512 ns |          1 | =''"
  "bucket_row 19 1 ''='' = ''    524 us |          1 | =''"
  "dots_row = ''       ... |''"
  by (simp_all add: bucket_row_def dots_row_def pad_left_def show_int_def fmt_simps)
    (simp_all add: eval_nat_numeral)

lemma lt_buckets: "i < 64 \<Longrightarrow> i < LATENCY_NUM_BUCKETS"
  by (simp add: LATENCY_NUM_BUCKETS_def)

lemma five_rows:
  "hist_loop (live ''t'' five_dist lat) 50 [tag_index CHR ''='']
      [0..<LATENCY_NUM_BUCKETS] LATENCY_NUM_BUCKETS
     = Inr [''      1 ns |          1 | ='', ''      2 ns |          1 | ='',
            ''      4 ns |          1 | ='', ''       ... |'',
            ''    512 ns |          1 | ='', ''       ... |'',
            ''    524 us |          1 | ='']"
proof -
  let ?h = "hist_loop (live ''t'' five_dist lat) 50 [tag_index CHR ''='']"
  have bar: "replicate (unat (((1 :: 64 word) * of_nat LATENCY_HISTOGRAM_WIDTH) div 50)) CHR ''='' = ''=''"
    by (simp add: LATENCY_HISTOGRAM_WIDTH_def)
  have s5: "?h [20..<LATENCY_NUM_BUCKETS] 19 = Inr []"
    by (rule hist_loop_live_end) (simp add: five_buckets)
  have s4: "?h [10..<LATENCY_NUM_BUCKETS] 9 = Inr [dots_row, bucket_row 19 1 ''='']"
    using hist_loop_live_next [of 10 19 five_dist "''t''" lat 50 9] s5 bar
    by (simp add: five_buckets lt_buckets gap_rows_def)
  have s3: "?h [3..<LATENCY_NUM_BUCKETS] 2
      = Inr [dots_row, bucket_row 9 1 ''='', dots_row, bucket_row 19 1 ''='']"
    using hist_loop_live_next [of 3 9 five_dist "''t''" lat 50 2] s4 bar
    by (simp add: five_buckets lt_buckets gap_rows_def)
  have s2: "?h [2..<LATENCY_NUM_BUCKETS] 1
      = Inr [bucket_row 2 1 ''='', dots_row, bucket_row 9 1 ''='', dots_row, bucket_row 19 1 ''='']"
    using hist_loop_live_next [of 2 2 five_dist "''t''" lat 50 1] s3 bar
    by (simp add: five_buckets lt_buckets gap_rows_def del: One_nat_def)
  have s1: "?h [1..<LATENCY_NUM_BUCKETS] 0
      = Inr [bucket_row 1 1 ''='', bucket_row 2 1 ''='', dots_row, bucket_row 9 1 ''='', dots_row,
             bucket_row 19 1 ''='']"
    using hist_loop_live_next [of 1 1 five_dist "''t''" lat 50 0] s2 bar
    by (simp add: five_buckets lt_buckets gap_rows_def del: One_nat_def)
  have s0: "?h [0..<LATENCY_NUM_BUCKETS] LATENCY_NUM_BUCKETS
      = Inr [bucket_row 0 1 ''='', bucket_row 1 1 ''='', bucket_row 2 1 ''='', dots_row,
             bucket_row 9 1 ''='', dots_row, bucket_row 19 1 ''='']"
    using hist_loop_live_next [of 0 0 five_dist "''t''" lat 50 LATENCY_NUM_BUCKETS] s1 bar
    by (simp add: five_buckets lt_buckets gap_rows_def)
  show ?thesis
    by (simp only: s0 row_simps)
qed


lemma double_literals:
  "double_literal 99 100 = 8917127262193582"
  "double_literal 999 1000 = 8998192055486251"
  "double_literal 9999 10000 = 9006298534815518"
  by (simp_all add: double_literal_def Let_def)

lemma tail_index_5:
  "tail_index 5 99 100 = 4" "tail_index 5 999 1000 = 4" "tail_index 5 9999 10000 = 4"
  by (simp_all add: tail_index_def double_literals round_nearest_even_def Let_def bit_length.simps)

lemma tail_index_2:
  "tail_index 2 99 100 = 1" "tail_index 2 999 1000 = 1" "tail_index 2 9999 10000 = 1"
  by (simp_all add: tail_index_def double_literals round_nearest_even_def Let_def bit_length.simps)

lemma five_tail:
  "tail_line [1, 2, 4, 1000, 1000000] = Inr ''TAIL LATENCY 99=1000 us 99.9=1000 us 99.99=1000 us''"
proof -
  have len: "length [1, 2, 4, 1000, 1000000 :: 64 word] = 5"
    by simp
  have at: "vector_at [1, 2, 4, 1000, 1000000] 4 = Inr 1000000"
    by (simp add: vector_at_def)
  have f: "LatencyFmtNS 1000000 = ''1000 us''"
    by (simp add: fmt_simps)
  show ?thesis
    by (simp only: tail_line_def len tail_index_5 at sum.case f) simp
qed

text \<open>
  C7, as amended. After recording 1, 2, 4, 1000, 1000000 into a new recorder named
  \<^verbatim>\<open>t\<close>, the report is the following: the summary line shows the min as \<^verbatim>\<open>1 ns\<close>, the
  max as \<^verbatim>\<open>1000 us\<close> and 5 samples.
\<close>

theorem five_samples_report:
  "record_all (dmtr_new_latency ''t'') [1, 2, 4, 1000, 1000000]
     = Inr (live ''t'' five_dist [1, 2, 4, 1000, 1000000])
   \<and> Latency_Dump (live ''t'' five_dist [1, 2, 4, 1000, 1000000])
     = Inr (0,
         [''LATENCY t: 1 ns 200 us/2 ns 1000 us (5 samples, 1001 us total)'',
          ''TAIL LATENCY 99=1000 us 99.9=1000 us 99.99=1000 us'',
          ''      1 ns |          1 | ='',
          ''      2 ns |          1 | ='',
          ''      4 ns |          1 | ='',
          ''       ... |'',
          ''    512 ns |          1 | ='',
          ''       ... |'',
          ''    524 us |          1 | =''],
         live ''t'' five_dist [1, 2, 4, 1000, 1000000])"
proof -
  have sorted: "sort [1, 2, 4, 1000, 1000000 :: 64 word] = [1, 2, 4, 1000, 1000000]"
    by (simp add: word_le_nat_alt)
  have "Latency_Dump (live ''t'' five_dist [1, 2, 4, 1000, 1000000])
     = Inr (0,
         [''LATENCY t: 1 ns 200 us/2 ns 1000 us (5 samples, 1001 us total)'',
          ''TAIL LATENCY 99=1000 us 99.9=1000 us 99.99=1000 us'',
          ''      1 ns |          1 | ='',
          ''      2 ns |          1 | ='',
          ''      4 ns |          1 | ='',
          ''       ... |'',
          ''    512 ns |          1 | ='',
          ''       ... |'',
          ''    524 us |          1 | =''],
         live ''t'' five_dist [1, 2, 4, 1000, 1000000])"
    by (simp only: Latency_Dump_live five_summary sorted five_tail five_largest five_rows
        sum.case)
  with record_five show ?thesis
    by (rule conjI)
qed

text \<open>
  The claim C7 as stated fails: \<^verbatim>\<open>LatencyFmtNS\<close> divides by 1000 only while the value is at
  least 10000, so the max of 1000000 ns is printed as \<^verbatim>\<open>1000 us\<close>, not as \<^verbatim>\<open>1 ms\<close>.
\<close>

theorem max_format_counterexample:
  "record_all (dmtr_new_latency ''t'') [1, 2, 4, 1000, 1000000]
     = Inr (live ''t'' five_dist [1, 2, 4, 1000, 1000000])
   \<and> dmax (distPool (live ''t'' five_dist [1, 2, 4, 1000, 1000000]) ! 0) = 1000000
   \<and> LatencyFmtNS (dmax (distPool (live ''t'' five_dist [1, 2, 4, 1000, 1000000]) ! 0)) = ''1000 us''
   \<and> LatencyFmtNS (dmax (distPool (live ''t'' five_dist [1, 2, 4, 1000, 1000000]) ! 0)) \<noteq> ''1 ms''
   \<and> summary_line ''t'' (tag_index CHR ''='')
         (distPool (live ''t'' five_dist [1, 2, 4, 1000, 1000000]) ! 0)
       = Inr ''LATENCY t: 1 ns 200 us/2 ns 1000 us (5 samples, 1001 us total)''"
proof -
  have m: "dmax (distPool (live ''t'' five_dist [1, 2, 4, 1000, 1000000]) ! 0) = 1000000"
    by (simp add: pool_live five_dist_def)
  have f: "LatencyFmtNS 1000000 = ''1000 us''"
    by (simp add: fmt_simps)
  have "LatencyFmtNS (dmax (distPool (live ''t'' five_dist [1, 2, 4, 1000, 1000000]) ! 0)) = ''1000 us''"
    by (simp only: m f)
  moreover from this
  have "LatencyFmtNS (dmax (distPool (live ''t'' five_dist [1, 2, 4, 1000, 1000000]) ! 0)) \<noteq> ''1 ms''"
    by simp
  moreover have "summary_line ''t'' (tag_index CHR ''='')
         (distPool (live ''t'' five_dist [1, 2, 4, 1000, 1000000]) ! 0)
       = Inr ''LATENCY t: 1 ns 200 us/2 ns 1000 us (5 samples, 1001 us total)''"
    by (simp only: pool_live five_summary)
  ultimately show ?thesis
    using record_five m by blast
qed


lemma two_dist_eq:
  "add_sample 16 (add_weight 4 1 (add_sample 1 (add_weight 0 1 fresh_dist))) = two_dist"
  by (rule dist_eqI)
    (simp_all add: add_sample_fields add_weight_fields fresh_dist_fields two_dist_def
      add_weight_def LATENCY_NUM_BUCKETS_def min_def max_def word_le_nat_alt word_less_nat_alt
      unat_minus_1_64)

lemma record_two:
  "record_all (dmtr_new_latency ''t'') [1, 16] = Inr (live ''t'' two_dist [1, 16])"
  by (simp add: record_new record_live bucket_of_values push_sample_small two_dist_eq)

lemma two_summary:
  "summary_line ''t'' (tag_index CHR ''='') two_dist
     = Inr ''LATENCY t: 1 ns 8 ns/1 ns 16 ns (2 samples, 17 ns total)''"
  by (simp add: summary_line_def two_dist_def LATENCY_NUM_BUCKETS_def upt_rec [of 0]
      upt_rec [of "Suc _"] Let_def fmt_simps)

lemma two_tail:
  "tail_line [1, 16] = Inr ''TAIL LATENCY 99=16 ns 99.9=16 ns 99.99=16 ns''"
proof -
  have len: "length [1, 16 :: 64 word] = 2"
    by simp
  have at: "vector_at [1, 16] 1 = Inr 16"
    by (simp add: vector_at_def)
  have f: "LatencyFmtNS 16 = ''16 ns''"
    by (simp add: fmt_simps)
  show ?thesis
    by (simp only: tail_line_def len tail_index_2 at sum.case f) simp
qed

lemma two_buckets:
  "i < LATENCY_NUM_BUCKETS \<Longrightarrow> buckets two_dist ! i = (if i = 0 \<or> i = 4 then 1 else 0)"
  by (simp add: two_dist_def nth_list_update)

lemma two_largest:
  "largest_loop (live ''t'' two_dist lat) [0..<LATENCY_NUM_BUCKETS] (of_nat LATENCY_HISTOGRAM_WIDTH)
     = 50"
proof -
  have "\<forall>i\<in>set [0..<LATENCY_NUM_BUCKETS]. (ucast (buckets two_dist ! i) :: 64 word) \<le> 50"
    by (simp add: two_buckets)
  then show ?thesis
    by (simp add: largest_loop_live LATENCY_HISTOGRAM_WIDTH_def)
qed

lemma one_bar:
  "replicate (unat (((1 :: 64 word) * of_nat LATENCY_HISTOGRAM_WIDTH) div 50)) CHR ''='' = ''=''"
  by (simp add: LATENCY_HISTOGRAM_WIDTH_def)

lemma two_rows:
  "hist_loop (live ''t'' two_dist lat) 50 [tag_index CHR ''='']
      [0..<LATENCY_NUM_BUCKETS] LATENCY_NUM_BUCKETS
     = Inr [''      1 ns |          1 | ='', ''       ... |'', ''     16 ns |          1 | ='']"
proof -
  let ?h = "hist_loop (live ''t'' two_dist lat) 50 [tag_index CHR ''='']"
  have s2: "?h [5..<LATENCY_NUM_BUCKETS] 4 = Inr []"
    by (rule hist_loop_live_end) (simp add: two_buckets)
  have s1: "?h [1..<LATENCY_NUM_BUCKETS] 0 = Inr [dots_row, bucket_row 4 1 ''='']"
    using hist_loop_live_next [of 1 4 two_dist "''t''" lat 50 0] s2 one_bar
    by (simp add: two_buckets lt_buckets gap_rows_def del: One_nat_def)
  have s0: "?h [0..<LATENCY_NUM_BUCKETS] LATENCY_NUM_BUCKETS
      = Inr [bucket_row 0 1 ''='', dots_row, bucket_row 4 1 ''='']"
    using hist_loop_live_next [of 0 0 two_dist "''t''" lat 50 LATENCY_NUM_BUCKETS] s1 one_bar
    by (simp add: two_buckets lt_buckets gap_rows_def)
  show ?thesis
    by (simp only: s0 row_simps)
qed

text \<open>
  The claim C8 as stated fails for a run of exactly 3 empty buckets: after recording 1
  and 16 the buckets 1, 2 and 3 lie between the printed buckets 0 and 4, and the report
  has a single \<^verbatim>\<open>...\<close> row for them.
\<close>

theorem zero_run_of_three_counterexample:
  "record_all (dmtr_new_latency ''t'') [1, 16] = Inr (live ''t'' two_dist [1, 16])
   \<and> buckets (distPool (live ''t'' two_dist [1, 16]) ! 0)
       = (replicate LATENCY_NUM_BUCKETS 0)[0 := 1, 4 := 1]
   \<and> Latency_Dump (live ''t'' two_dist [1, 16])
     = Inr (0,
         [''LATENCY t: 1 ns 8 ns/1 ns 16 ns (2 samples, 17 ns total)'',
          ''TAIL LATENCY 99=16 ns 99.9=16 ns 99.99=16 ns'',
          ''      1 ns |          1 | ='',
          ''       ... |'',
          ''     16 ns |          1 | =''],
         live ''t'' two_dist [1, 16])"
proof -
  have sorted: "sort [1, 16 :: 64 word] = [1, 16]"
    by (simp add: word_le_nat_alt)
  have dump: "Latency_Dump (live ''t'' two_dist [1, 16])
     = Inr (0,
         [''LATENCY t: 1 ns 8 ns/1 ns 16 ns (2 samples, 17 ns total)'',
          ''TAIL LATENCY 99=16 ns 99.9=16 ns 99.99=16 ns'',
          ''      1 ns |          1 | ='',
          ''       ... |'',
          ''     16 ns |          1 | =''],
         live ''t'' two_dist [1, 16])"
    by (simp only: Latency_Dump_live two_summary sorted two_tail two_largest two_rows sum.case)
  have b: "buckets (distPool (live ''t'' two_dist [1, 16]) ! 0)
       = (replicate LATENCY_NUM_BUCKETS 0)[0 := 1, 4 := 1]"
    by (simp add: pool_live two_dist_def)
  show ?thesis
    by (intro conjI record_two b dump)
qed

lemma gap_dist_eq:
  "add_sample 8192 (add_weight 13 1 (add_sample 1024 (add_weight 10 1 fresh_dist))) = gap_dist"
  by (rule dist_eqI)
    (simp_all add: add_sample_fields add_weight_fields fresh_dist_fields gap_dist_def
      add_weight_def LATENCY_NUM_BUCKETS_def min_def max_def word_le_nat_alt word_less_nat_alt
      unat_minus_1_64)

lemma record_gap:
  "record_all (dmtr_new_latency ''t'') [1024, 8192] = Inr (live ''t'' gap_dist [1024, 8192])"
proof -
  have "bucket_of 1024 = 10" "bucket_of 8192 = 13"
    by (rule bucket_of_eqI; simp)+
  then show ?thesis
    by (simp add: record_new record_live push_sample_small gap_dist_eq)
qed

lemma gap_buckets:
  "i < LATENCY_NUM_BUCKETS \<Longrightarrow> buckets gap_dist ! i = (if i = 10 \<or> i = 13 then 1 else 0)"
  by (simp add: gap_dist_def nth_list_update)

lemma first_gap: "i < 64 \<Longrightarrow> gap_rows LATENCY_NUM_BUCKETS i = []"
  by (simp add: gap_rows_def LATENCY_NUM_BUCKETS_def)

theorem zero_run_rows_witness:
  "record_all (dmtr_new_latency ''t'') [1024, 8192] = Inr (live ''t'' gap_dist [1024, 8192])
   \<and> hist_loop (live ''t'' gap_dist [1024, 8192]) 50 [tag_index CHR ''='']
      [10..<LATENCY_NUM_BUCKETS] LATENCY_NUM_BUCKETS
     = Inr [bucket_row 10 1 ''='', zero_row 11, zero_row 12, bucket_row 13 1 ''='']
   \<and> record_all (dmtr_new_latency ''t'') [1, 16] = Inr (live ''t'' two_dist [1, 16])
   \<and> hist_loop (live ''t'' two_dist [1, 16]) 50 [tag_index CHR ''='']
      [0..<LATENCY_NUM_BUCKETS] LATENCY_NUM_BUCKETS
     = Inr [bucket_row 0 1 ''='', dots_row, bucket_row 4 1 ''='']"
proof -
  let ?t = "[tag_index CHR ''='']"
  let ?g = "live ''t'' gap_dist [1024, 8192]" and ?w = "live ''t'' two_dist [1, 16]"
  have g_end: "hist_loop ?g 50 ?t [14..<LATENCY_NUM_BUCKETS] 13 = Inr []"
    by (rule hist_loop_live_end) (simp add: gap_buckets)
  have g_tot: "bucket_total ?g 50 ?t 10 = 1" "bucket_total ?g 50 ?t 13 = 1"
    "\<forall>k. 10 < k \<and> k < 13 \<longrightarrow> bucket_total ?g 50 ?t k = 0"
    by (simp_all add: bucket_total_live gap_buckets lt_buckets)
  have g_bar: "bucket_bar ?g 50 ?t 10 = ''=''" "bucket_bar ?g 50 ?t 13 = ''=''"
    by (simp_all add: bucket_bar_live gap_buckets lt_buckets LATENCY_HISTOGRAM_WIDTH_def)
  have g: "hist_loop ?g 50 ?t [10..<LATENCY_NUM_BUCKETS] LATENCY_NUM_BUCKETS
     = Inr [bucket_row 10 1 ''='', zero_row 11, zero_row 12, bucket_row 13 1 ''='']"
    using zero_run_rows [of 10 13 ?g 50 ?t LATENCY_NUM_BUCKETS] g_tot
    by (simp add: g_end g_bar first_gap)
  have w_end: "hist_loop ?w 50 ?t [5..<LATENCY_NUM_BUCKETS] 4 = Inr []"
    by (rule hist_loop_live_end) (simp add: two_buckets)
  have w_tot: "bucket_total ?w 50 ?t 0 = 1" "bucket_total ?w 50 ?t 4 = 1"
    "\<forall>k. 0 < k \<and> k < 4 \<longrightarrow> bucket_total ?w 50 ?t k = 0"
    by (simp_all add: bucket_total_live two_buckets lt_buckets)
  have w_bar: "bucket_bar ?w 50 ?t 0 = ''=''" "bucket_bar ?w 50 ?t 4 = ''=''"
    by (simp_all add: bucket_bar_live two_buckets lt_buckets LATENCY_HISTOGRAM_WIDTH_def)
  have w: "hist_loop ?w 50 ?t [0..<LATENCY_NUM_BUCKETS] LATENCY_NUM_BUCKETS
     = Inr [bucket_row 0 1 ''='', dots_row, bucket_row 4 1 ''='']"
    using zero_run_rows [of 0 4 ?w 50 ?t LATENCY_NUM_BUCKETS] w_tot
    by (simp add: w_end w_bar first_gap)
  show ?thesis
    by (intro conjI record_gap g record_two w)
qed

subsection \<open>The sample buffer under a merge\<close>







subsection \<open>Recorders built by recording fewer than \<open>2 ^ 32\<close> samples\<close>









subsection \<open>The report after a merge into a new recorder\<close>
















subsection \<open>The tail-latency indices\<close>

lemma bit_length_bounds:
  "0 < x \<Longrightarrow> 2 ^ (bit_length x - 1) \<le> x \<and> x < 2 ^ bit_length x"
proof (induction x rule: bit_length.induct)
  case (1 n)
  show ?case
  proof (cases "n div 2 = 0")
    case True
    with "1.prems" have "n = 1"
      by presburger
    then show ?thesis
      by (simp add: bit_length.simps)
  next
    case False
    with "1.IH" "1.prems" have ih: "2 ^ (bit_length (n div 2) - 1) \<le> n div 2"
      "n div 2 < 2 ^ bit_length (n div 2)"
      by simp_all
    have bl: "bit_length n = Suc (bit_length (n div 2))"
      using "1.prems" by (subst bit_length.simps) simp
    have pos: "bit_length (n div 2) \<noteq> 0"
      using False by (subst bit_length.simps) simp
    then have "(2 :: nat) ^ bit_length (n div 2) = 2 * 2 ^ (bit_length (n div 2) - 1)"
      by (cases "bit_length (n div 2)") simp_all
    with ih(1) have "2 ^ bit_length (n div 2) \<le> n"
      by linarith
    moreover from ih(2) have "n < 2 * 2 ^ bit_length (n div 2)"
      by linarith
    ultimately show ?thesis
      by (simp add: bl)
  qed
qed

lemma round_nearest_even_small: "x < 2 ^ p \<Longrightarrow> round_nearest_even p x = x"
  by (simp add: round_nearest_even_def)

lemma round_nearest_even_bounds:
  assumes "2 ^ p \<le> x" and "0 < p"
  defines "sh \<equiv> bit_length x - p"
  shows "0 < sh" and "2 ^ (p + sh - 1) \<le> x" and "x < 2 ^ (p + sh)"
    and "2 ^ sh dvd round_nearest_even p x"
    and "x \<le> round_nearest_even p x + 2 ^ (sh - 1)"
    and "round_nearest_even p x \<le> x + 2 ^ (sh - 1)"
proof -
  have xpos: "0 < x"
    using assms(1) by (metis not_gr_zero not_less power_eq_0_iff zero_neq_numeral le_zero_eq)
  from bit_length_bounds [OF xpos]
  have bl: "2 ^ (bit_length x - 1) \<le> x" "x < 2 ^ bit_length x"
    by simp_all
  have "(2 :: nat) ^ p < 2 ^ bit_length x"
    using assms(1) bl(2) by linarith
  then have "p < bit_length x"
    by (simp only: power_strict_increasing_iff one_less_numeral_iff semiring_norm)
  then show sh: "0 < sh" and "2 ^ (p + sh - 1) \<le> x" and "x < 2 ^ (p + sh)"
    using bl by (simp_all add: sh_def)
  let ?q = "x div 2 ^ sh" and ?r = "x mod 2 ^ sh" and ?h = "(2 :: nat) ^ (sh - 1)"
  have two_h: "(2 :: nat) ^ sh = 2 * ?h"
    using sh by (cases sh) simp_all
  have x: "x = ?q * 2 ^ sh + ?r"
    by (rule div_mult_mod_eq [symmetric])
  have r: "?r < 2 ^ sh"
    by simp
  have R: "round_nearest_even p x = (if ?r > ?h \<or> (?r = ?h \<and> odd ?q) then ?q + 1 else ?q) * 2 ^ sh"
    using assms(1) by (simp add: round_nearest_even_def sh_def Let_def not_less [symmetric])
  show "2 ^ sh dvd round_nearest_even p x"
    by (simp add: R)
  show "x \<le> round_nearest_even p x + 2 ^ (sh - 1)"
  proof (cases "?r > ?h \<or> (?r = ?h \<and> odd ?q)")
    case True
    then have "round_nearest_even p x = ?q * 2 ^ sh + 2 ^ sh"
      by (simp add: R)
    with x r show ?thesis
      by linarith
  next
    case False
    then have "round_nearest_even p x = ?q * 2 ^ sh" and "?r \<le> ?h"
      by (auto simp: R)
    with x show ?thesis
      by linarith
  qed
  show "round_nearest_even p x \<le> x + 2 ^ (sh - 1)"
  proof (cases "?r > ?h \<or> (?r = ?h \<and> odd ?q)")
    case True
    then have "round_nearest_even p x = ?q * 2 ^ sh + 2 ^ sh" and "?h \<le> ?r"
      by (auto simp: R)
    with x two_h show ?thesis
      by linarith
  next
    case False
    then have "round_nearest_even p x = ?q * 2 ^ sh"
      by (simp add: R)
    with x show ?thesis
      by linarith
  qed
qed


lemma dvd_step:
  fixes a b k :: nat
  assumes "k dvd a" and "k dvd b" and "a < b"
  shows "a + k \<le> b"
proof -
  from assms(1,2) obtain x y where a: "a = k * x" and b: "b = k * y"
    by (auto elim!: dvdE)
  with assms(3) have "x < y"
    by (metis mult_less_cancel1)
  then have "Suc x \<le> y"
    by simp
  then have "k * Suc x \<le> k * y"
    by (rule mult_le_mono2)
  with a b show ?thesis
    by simp
qed

lemma tail_product_floor:
  fixes n m num den e1 e2 :: nat
  assumes m: "2 ^ 52 \<le> m" "m < 2 ^ 53"
    and lit: "m * den + e1 = num * 2 ^ 53 + e2"
    and den: "0 < den" "den \<le> 10000"
    and e1: "4 * e1 \<le> den"
    and e2: "e2 \<le> 1000"
    and n: "2 \<le> n" "n \<le> 2 ^ 24"
  shows "round_nearest_even 53 (n * m) div 2 ^ 53 = (n * num) div den"
proof -
  define P where "P = n * m"
  define T :: nat where "T = 2 ^ 53"
  define R where "R = round_nearest_even 53 P"
  define sh where "sh = bit_length P - 53"
  define h :: nat where "h = 2 ^ (sh - 1)"
  define q0 where "q0 = (n * num) div den"
  define r0 where "r0 = (n * num) mod den"
  have "2 * 2 ^ 52 \<le> n * m"
    using n(1) m(1) by (rule mult_le_mono)
  then have P_ge: "2 ^ 53 \<le> P"
    by (simp add: P_def)
  from round_nearest_even_bounds [OF P_ge, folded sh_def]
  have sh: "0 < sh" and P_lo: "2 ^ (53 + sh - 1) \<le> P" and P_hi: "P < 2 ^ (53 + sh)"
    and dvd: "2 ^ sh dvd R" and lo: "P \<le> R + h" and hi: "R \<le> P + h"
    by (simp_all add: R_def h_def)
  have two_h: "(2 :: nat) ^ sh = 2 * h"
    using sh by (cases sh) (simp_all add: h_def)
  have h_pos: "0 < h"
    by (simp add: h_def)
  have "n * m < 2 ^ 24 * 2 ^ 53"
    using n m(2) by (intro mult_le_less_imp_less) simp_all
  then have "P < 2 ^ 77"
    by (simp add: P_def)
  with P_lo have "(2 :: nat) ^ (53 + sh - 1) < 2 ^ 77"
    by linarith
  then have "53 + sh - 1 < 77"
    by (simp only: power_strict_increasing_iff one_less_numeral_iff semiring_norm)
  then have sh_le: "sh \<le> 24"
    by simp
  then have "(2 :: nat) ^ (sh - 1) \<le> 2 ^ 23"
    by (intro power_increasing) simp_all
  then have h_le: "h \<le> 2 ^ 23"
    by (simp add: h_def)
  have n_lt: "n < 4 * h"
  proof -
    have "n * 2 ^ 52 \<le> n * m"
      using m(1) by (rule mult_le_mono2)
    also have "\<dots> < 2 ^ (53 + sh)"
      using P_hi by (simp add: P_def)
    also have "\<dots> = (4 * h) * 2 ^ 52"
      by (simp add: power_add two_h)
    finally show ?thesis
      by simp
  qed
  have ne1: "n * e1 < h * den"
  proof (cases "e1 = 0")
    case True
    with h_pos den(1) show ?thesis by simp
  next
    case False
    then have "n * e1 < (4 * h) * e1"
      using n_lt by simp
    also have "\<dots> = h * (4 * e1)"
      by simp
    also have "\<dots> \<le> h * den"
      using e1 by (rule mult_le_mono2)
    finally show ?thesis .
  qed
  have split: "n * num = q0 * den + r0" and r0: "r0 < den"
    using den(1) by (simp_all add: q0_def r0_def)
  have "n * (m * den + e1) = n * (num * 2 ^ 53 + e2)"
    by (simp only: lit)
  then have "P * den + n * e1 = (n * num) * T + n * e2"
    by (simp add: P_def T_def algebra_simps)
  then have ident: "P * den + n * e1 = q0 * T * den + r0 * T + n * e2"
    by (simp add: split algebra_simps)
  have lower: "q0 * T \<le> R"
  proof (rule ccontr)
    assume "\<not> q0 * T \<le> R"
    then have "R < q0 * T"
      by simp
    moreover have "2 ^ sh dvd q0 * T"
    proof -
      have "(2 :: nat) ^ sh dvd 2 ^ 53"
        using sh_le by (intro le_imp_power_dvd) simp
      then show ?thesis
        by (simp add: T_def)
    qed
    ultimately have "R + 2 ^ sh \<le> q0 * T"
      using dvd by (intro dvd_step)
    with lo two_h have "P + h \<le> q0 * T"
      by linarith
    then have "(P + h) * den \<le> q0 * T * den"
      by (rule mult_le_mono1)
    then have "P * den + h * den \<le> q0 * T * den"
      by (simp add: algebra_simps)
    with ident ne1 show False
      by linarith
  qed
  have upper: "R < Suc q0 * T"
  proof (rule ccontr)
    assume "\<not> R < Suc q0 * T"
    then have "q0 * T + T \<le> R"
      by simp
    with hi have "q0 * T + T \<le> P + h"
      by linarith
    then have "(q0 * T + T) * den \<le> (P + h) * den"
      by (rule mult_le_mono1)
    then have "q0 * T * den + T * den \<le> P * den + h * den"
      by (simp add: algebra_simps)
    with ident have a: "T * den \<le> r0 * T + n * e2 + h * den"
      by linarith
    have "Suc r0 \<le> den"
      using r0 by simp
    then have "T * Suc r0 \<le> T * den"
      by (rule mult_le_mono2)
    with a have b: "T \<le> n * e2 + h * den"
      by (simp add: algebra_simps)
    have "n * e2 \<le> 2 ^ 24 * 1000"
      using n(2) e2 by (rule mult_le_mono)
    moreover have "h * den \<le> 2 ^ 23 * 10000"
      using h_le den(2) by (rule mult_le_mono)
    ultimately have "n * e2 + h * den < T"
      by (simp add: T_def)
    with b show False
      by simp
  qed
  have "R div T = q0"
    using lower upper by (intro div_nat_eqI) (simp_all add: algebra_simps)
  then show ?thesis
    by (simp add: R_def P_def T_def q0_def)
qed


lemma double_literal_values:
  "double_literal 99 100 = 8917127262193582"
  "double_literal 999 1000 = 8998192055486251"
  "double_literal 9999 10000 = 9006298534815518"
  by (simp_all add: double_literal_def Let_def)

lemma tail_index_exact:
  assumes "n < 2 ^ 24"
  shows "tail_index n 99 100 = n * 99 div 100"
    and "tail_index n 999 1000 = n * 999 div 1000"
    and "tail_index n 9999 10000 = n * 9999 div 10000"
proof -
  have float: "round_nearest_even 24 n = n"
    using assms by (rule round_nearest_even_small)
  consider "n = 0" | "n = 1" | "2 \<le> n"
    by linarith
  then have "tail_index n 99 100 = n * 99 div 100
    \<and> tail_index n 999 1000 = n * 999 div 1000
    \<and> tail_index n 9999 10000 = n * 9999 div 10000"
  proof cases
    case 1
    then show ?thesis
      by (simp add: tail_index_def round_nearest_even_def)
  next
    case 2
    then show ?thesis
      by (simp add: tail_index_def double_literal_values round_nearest_even_def)
  next
    case 3
    have le: "n \<le> 2 ^ 24"
      using assms by simp
    have "round_nearest_even 53 (n * 8917127262193582) div 2 ^ 53 = n * 99 div 100"
      using 3 le by (intro tail_product_floor [where ?e1.0 = 8 and ?e2.0 = 0]) simp_all
    moreover have "round_nearest_even 53 (n * 8998192055486251) div 2 ^ 53 = n * 999 div 1000"
      using 3 le by (intro tail_product_floor [where ?e1.0 = 8 and ?e2.0 = 0]) simp_all
    moreover have "round_nearest_even 53 (n * 9006298534815518) div 2 ^ 53 = n * 9999 div 10000"
      using 3 le by (intro tail_product_floor [where ?e1.0 = 0 and ?e2.0 = 992]) simp_all
    ultimately show ?thesis
      by (simp add: tail_index_def float double_literal_values)
  qed
  then show "tail_index n 99 100 = n * 99 div 100"
    and "tail_index n 999 1000 = n * 999 div 1000"
    and "tail_index n 9999 10000 = n * 9999 div 10000"
    by simp_all
qed

text \<open>
  C6, as amended. For every size \<open>N\<close> of the sample buffer from 1001 up to the cap of
  1000000, the three indices that \<^verbatim>\<open>Latency_Dump\<close> computes in floating point are the
  integer parts of \<open>N * 0.99\<close>, \<open>N * 0.999\<close> and \<open>N * 0.9999\<close>, they are strictly
  increasing, and the last is at most \<open>N - 1\<close>.
\<close>

lemma floor_decimal:
  fixes n num den :: nat
  shows "\<lfloor>real n * (real num / real den)\<rfloor> = int (n * num div den)"
proof -
  have "real n * (real num / real den) = of_nat (n * num) / of_nat den"
    by simp
  then show ?thesis
    by (simp only: floor_divide_of_nat_eq)
qed

lemma tail_index_floor:
  assumes "n < 2 ^ 24"
  shows "int (tail_index n 99 100) = \<lfloor>real n * 0.99\<rfloor>"
    and "int (tail_index n 999 1000) = \<lfloor>real n * 0.999\<rfloor>"
    and "int (tail_index n 9999 10000) = \<lfloor>real n * 0.9999\<rfloor>"
  using floor_decimal [of n 99 100] floor_decimal [of n 999 1000] floor_decimal [of n 9999 10000]
  by (simp_all add: tail_index_exact [OF assms])

theorem tail_indices_ordered:
  assumes "1001 \<le> N" and "N \<le> MAX_ITERATIONS"
  shows "int (tail_index N 99 100) = \<lfloor>real N * 0.99\<rfloor>
    \<and> int (tail_index N 999 1000) = \<lfloor>real N * 0.999\<rfloor>
    \<and> int (tail_index N 9999 10000) = \<lfloor>real N * 0.9999\<rfloor>
    \<and> 0 \<le> tail_index N 99 100
    \<and> tail_index N 99 100 < tail_index N 999 1000
    \<and> tail_index N 999 1000 < tail_index N 9999 10000
    \<and> tail_index N 9999 10000 \<le> N - 1"
proof -
  have small: "N < 2 ^ 24"
    using assms(2) by (simp add: MAX_ITERATIONS_def)
  note exact = tail_index_exact [OF small]
  note floors = tail_index_floor [OF small]
  have first: "N * 99 div 100 < N * 999 div 1000"
    using assms(1) by linarith
  have second: "N * 999 div 1000 < N * 9999 div 10000"
  proof (cases "1112 \<le> N")
    case True
    have "(N * 999 div 1000) * 1000 \<le> N * 999"
      by (rule div_times_less_eq_dividend)
    with True have "Suc (N * 999 div 1000) * 10000 \<le> N * 9999"
      by simp
    then have "Suc (N * 999 div 1000) \<le> N * 9999 div 10000"
      by (simp only: less_eq_div_iff_mult_less_eq zero_less_numeral)
    then show ?thesis
      by simp
  next
    case False
    with assms(1) have "N * 999 = 1000 * (N - 2) + (2000 - N)" and "2000 - N < 1000"
      and "N * 9999 = 10000 * (N - 1) + (10000 - N)" and "10000 - N < 10000"
      by simp_all
    then have "N * 999 div 1000 = N - 2" and "N * 9999 div 10000 = N - 1"
      by (intro div_nat_eqI; simp)+
    with assms(1) show ?thesis
      by simp
  qed
  have third: "N * 9999 div 10000 \<le> N - 1"
    using assms(1) by linarith
  have order: "tail_index N 99 100 < tail_index N 999 1000"
    "tail_index N 999 1000 < tail_index N 9999 10000"
    "tail_index N 9999 10000 \<le> N - 1"
    using first second third by (simp_all only: exact)
  show ?thesis
    by (intro conjI floors order le0)
qed

theorem tail_indices_ordered_witness:
  "(1001 :: nat) \<le> 10000 \<and> 10000 \<le> MAX_ITERATIONS
   \<and> tail_index 10000 99 100 = 9900 \<and> tail_index 10000 999 1000 = 9990
   \<and> tail_index 10000 9999 10000 = 9999"
proof -
  have a: "(1001 :: nat) \<le> 10000" and b: "10000 \<le> MAX_ITERATIONS"
    by (simp_all add: MAX_ITERATIONS_def)
  have "(10000 :: nat) < 2 ^ 24"
    by simp
  note exact = tail_index_exact [OF this]
  from tail_indices_ordered [OF a b] a b show ?thesis
    by (simp add: exact)
qed

text \<open>
  The claim C6 as stated fails at \<open>N = 1000\<close>: the indices are 990, 999 and 999, so the
  last two are equal.
\<close>

theorem tail_indices_counterexample:
  "(1000 :: nat) \<le> MAX_ITERATIONS
   \<and> tail_index 1000 99 100 = 990 \<and> tail_index 1000 999 1000 = 999
   \<and> tail_index 1000 9999 10000 = 999
   \<and> \<lfloor>real (1000 :: nat) * 0.999\<rfloor> = 999 \<and> \<lfloor>real (1000 :: nat) * 0.9999\<rfloor> = 999
   \<and> \<not> tail_index 1000 999 1000 < tail_index 1000 9999 10000"
proof -
  have small: "(1000 :: nat) < 2 ^ 24"
    by simp
  have "\<lfloor>real (1000 :: nat) * 0.999\<rfloor> = 999" "\<lfloor>real (1000 :: nat) * 0.9999\<rfloor> = 999"
    using floor_decimal [of 1000 999 1000] floor_decimal [of 1000 9999 10000] by simp_all
  with tail_index_exact [OF small] show ?thesis
    by (simp add: MAX_ITERATIONS_def)
qed

end
